theory Spec2Isabelle
  imports Main
begin

section \<open>Data model\<close>

text \<open>
  Python integers are unbounded and are modelled as \<open>int\<close>; Python's \<open>%\<close> and
  \<open>//\<close> are floor modulus and floor division, which is what \<open>mod\<close> and \<open>div\<close>
  are on \<open>int\<close>, except that Python raises where the divisor is zero.  Every exception
  of the source is a value of \<open>error\<close>.
\<close>

datatype error = IndexError | CharacterNotFound | ValueError | ZeroDivisionError

definition py_mod :: "int \<Rightarrow> int \<Rightarrow> error + int" where
  "py_mod a b = (if b = 0 then Inl ZeroDivisionError else Inr (a mod b))"

text \<open>Python list indexing: a negative index counts from the end.\<close>

definition py_getitem :: "'a list \<Rightarrow> int \<Rightarrow> error + 'a" where
  "py_getitem xs i =
     (if 0 \<le> i \<and> i < int (length xs) then Inr (xs ! nat i)
      else if - int (length xs) \<le> i \<and> i < 0 then Inr (xs ! nat (int (length xs) + i))
      else Inl IndexError)"

text \<open>The list of the 26 one-character strings \<open>"A"\<close>, ..., \<open>"Z"\<close>.\<close>

definition characters :: "string list" where
  "characters = map (\<lambda>c. [c]) ''ABCDEFGHIJKLMNOPQRSTUVWXYZ''"

section \<open>Alphabet lookup\<close>

definition get_character_from_index :: "int \<Rightarrow> error + string" where
  "get_character_from_index index =
     (if index > int (length characters) then Inl IndexError
      else py_getitem characters (index - 1))"

text \<open>The \<open>for index in range(len(characters))\<close> loop, started at \<open>index\<close>.\<close>

fun get_index_loop :: "string list \<Rightarrow> string \<Rightarrow> int \<Rightarrow> error + int" where
  "get_index_loop [] character index = Inl CharacterNotFound"
| "get_index_loop (c # cs) character index =
     (if c = character then Inr (index + 1) else get_index_loop cs character (index + 1))"

definition get_index_from_character :: "string \<Rightarrow> error + int" where
  "get_index_from_character character = get_index_loop characters character 0"

section \<open>Number theory\<close>

text \<open>
  The recursive functions are modelled with an unbounded call stack: the interpreter's
  recursion limit is not part of the model.
\<close>

function euclid_gcd :: "int \<Rightarrow> int \<Rightarrow> int" where
  "euclid_gcd a b = (if b = 0 then a else euclid_gcd b (a mod b))"
  by pat_completeness auto
termination
  by (relation "measure (\<lambda>(a, b). nat \<bar>b\<bar>)") (auto simp: abs_mod_less)

declare euclid_gcd.simps [simp del]

function extended_euclid_gcd :: "int \<Rightarrow> int \<Rightarrow> int \<times> int \<times> int" where
  "extended_euclid_gcd a b =
     (if b = 0 then (a, 1, 0)
      else (case extended_euclid_gcd b (a mod b) of
              (g, s, t) \<Rightarrow> (let q = a div b in (g, t, s - q * t))))"
  by pat_completeness auto
termination
  by (relation "measure (\<lambda>(a, b). nat \<bar>b\<bar>)") (auto simp: abs_mod_less)

declare extended_euclid_gcd.simps [simp del]

function powers :: "int \<Rightarrow> int \<Rightarrow> int \<Rightarrow> error + int" where
  "powers a n k =
     (if n = 0 then py_mod 1 k
      else if n = 1 then py_mod a k
      else if n < 0 then
        (case extended_euclid_gcd a k of
           (g, s, _) \<Rightarrow>
             if g \<noteq> 1 then Inl ValueError
             else (case py_mod s k of
                     Inl e \<Rightarrow> Inl e
                   | Inr sk \<Rightarrow> powers sk (- n) k))
      else if n mod 2 = 0 then
        (case py_mod (a * a) k of
           Inl e \<Rightarrow> Inl e
         | Inr aa \<Rightarrow> powers aa (n div 2) k)
      else
        (case py_mod (a * a) k of
           Inl e \<Rightarrow> Inl e
         | Inr aa \<Rightarrow>
             (case powers aa ((n - 1) div 2) k of
                Inl e \<Rightarrow> Inl e
              | Inr r \<Rightarrow> py_mod (a * r) k)))"
  by pat_completeness auto
termination
  by (relation "measure (\<lambda>(a, n, k). if n < 0 then nat (- n) + 1 else nat n)") auto

declare powers.simps [simp del]

section \<open>Randomness\<close>

text \<open>
  The process-wide random source is made explicit: an infinite sequence of raw draws,
  consumed from the front.  \<open>random.randint(a, b)\<close> reduces the next raw draw into
  \<open>[a, b]\<close> and raises \<open>ValueError\<close> on an empty range; \<open>random.choice\<close>
  indexes the sequence with the next raw draw.  Every outcome of the draws is the image of
  some sequence, and every sequence gives outcomes in range.
\<close>

type_synonym rng = "nat \<Rightarrow> nat"

definition get_random_int_between :: "int \<Rightarrow> int \<Rightarrow> rng \<Rightarrow> error + (int \<times> rng)" where
  "get_random_int_between a b r =
     (if b < a then Inl ValueError
      else Inr (a + int (r 0 mod nat (b - a + 1)), r \<circ> Suc))"

definition random_choice :: "'a list \<Rightarrow> rng \<Rightarrow> error + ('a \<times> rng)" where
  "random_choice xs r =
     (if xs = [] then Inl IndexError
      else Inr (xs ! (r 0 mod length xs), r \<circ> Suc))"

text \<open>The random source whose raw draws all are \<open>c\<close>.\<close>

definition constant_draws :: "nat \<Rightarrow> rng" where
  "constant_draws c = (\<lambda>_. c)"

text \<open>The random source whose first raw draw is \<open>c\<close> and whose other draws are 0.\<close>

definition first_draw :: "nat \<Rightarrow> rng" where
  "first_draw c = (\<lambda>i. if i = 0 then c else 0)"

section \<open>Primality test\<close>

text \<open>
  The inner \<open>while (k % 2) == 0\<close> loop of one round.  It may run forever (at
  \<open>k = 0\<close>), so not returning is the value \<open>None\<close>.  \<open>Inr True\<close>: the loop
  was left by \<open>break\<close> or by its condition; \<open>Inr False\<close>: \<open>return False\<close>.
\<close>

partial_function (option) mr_halving :: "int \<Rightarrow> int \<Rightarrow> int \<Rightarrow> (error + bool) option" where
  "mr_halving a k n =
     (if k mod 2 = 0 then
        (let k' = k div 2 in
         case powers a k' n of
           Inl e \<Rightarrow> Some (Inl e)
         | Inr x \<Rightarrow>
             if x = n - 1 then Some (Inr True)
             else if x \<noteq> 1 then Some (Inr False)
             else mr_halving a k' n)
      else Some (Inr True))"

declare mr_halving.simps [code]

text \<open>The \<open>for _ in range(iterations)\<close> loop, with the number of rounds left.\<close>

fun mr_rounds :: "nat \<Rightarrow> int \<Rightarrow> rng \<Rightarrow> (error + (bool \<times> rng)) option" where
  "mr_rounds 0 n r = Some (Inr (True, r))"
| "mr_rounds (Suc i) n r =
     (let k = n - 1 in
      case get_random_int_between 2 (n - 2) r of
        Inl e \<Rightarrow> Some (Inl e)
      | Inr (a, r') \<Rightarrow>
          (case powers a k n of
             Inl e \<Rightarrow> Some (Inl e)
           | Inr x \<Rightarrow>
               if x \<noteq> 1 then Some (Inr (False, r'))
               else (case mr_halving a k n of
                       None \<Rightarrow> None
                     | Some (Inl e) \<Rightarrow> Some (Inl e)
                     | Some (Inr False) \<Rightarrow> Some (Inr (False, r'))
                     | Some (Inr True) \<Rightarrow> mr_rounds i n r')))"

definition prime_test_miller_rabin :: "int \<Rightarrow> int \<Rightarrow> rng \<Rightarrow> (error + (bool \<times> rng)) option" where
  "prime_test_miller_rabin n iterations r = mr_rounds (nat iterations) n r"

section \<open>Prime generator\<close>

text \<open>
  \<open>str\<close> of an integer and \<open>int\<close> of a string of decimal digits.  The generator
  only parses strings of digits; for any other string the model raises \<open>ValueError\<close>
  (Python also accepts a sign, blanks and underscores, which never occur here).
\<close>

definition digit_char :: "nat \<Rightarrow> char" where
  "digit_char d = char_of (48 + d)"

function str_nat :: "nat \<Rightarrow> string" where
  "str_nat n = (if n < 10 then [digit_char n] else str_nat (n div 10) @ [digit_char (n mod 10)])"
  by pat_completeness auto
termination
  by (relation "measure id") auto

declare str_nat.simps [simp del]

definition py_str :: "int \<Rightarrow> string" where
  "py_str i = (if i < 0 then CHR ''-'' # str_nat (nat (- i)) else str_nat (nat i))"

fun parse_digits :: "string \<Rightarrow> int \<Rightarrow> error + int" where
  "parse_digits [] acc = Inr acc"
| "parse_digits (c # cs) acc =
     (let v = (of_char c :: nat) in
      if 48 \<le> v \<and> v \<le> 57 then parse_digits cs (acc * 10 + int (v - 48))
      else Inl ValueError)"

definition py_int :: "string \<Rightarrow> error + int" where
  "py_int s = (if s = [] then Inl ValueError else parse_digits s 0)"

text \<open>The generator expression \<open>str(get_random_int_between(0, 9)) for _ in range(n - 2)\<close>, joined.\<close>

fun middle_digits :: "nat \<Rightarrow> rng \<Rightarrow> error + (string \<times> rng)" where
  "middle_digits 0 r = Inr ([], r)"
| "middle_digits (Suc m) r =
     (case get_random_int_between 0 9 r of
        Inl e \<Rightarrow> Inl e
      | Inr (d, r') \<Rightarrow>
          (case middle_digits m r' of
             Inl e \<Rightarrow> Inl e
           | Inr (s, r'') \<Rightarrow> Inr (py_str d @ s, r'')))"

text \<open>
  One pass of the \<open>while True\<close> loop up to the test: the candidate built from a
  first digit in \<open>[1, 9]\<close>, \<open>n - 2\<close> middle digits and a last digit chosen among
  1, 3, 7 and 9.
\<close>

definition draw_candidate :: "int \<Rightarrow> rng \<Rightarrow> error + (int \<times> rng)" where
  "draw_candidate n r =
     (case get_random_int_between 1 9 r of
        Inl e \<Rightarrow> Inl e
      | Inr (first_digit, r1) \<Rightarrow>
          (case middle_digits (nat (n - 2)) r1 of
             Inl e \<Rightarrow> Inl e
           | Inr (middle, r2) \<Rightarrow>
               (case random_choice [1, 3, 7, 9] r2 of
                  Inl e \<Rightarrow> Inl e
                | Inr (last_digit, r3) \<Rightarrow>
                    (case py_int (py_str first_digit @ middle @ py_str last_digit) of
                       Inl e \<Rightarrow> Inl e
                     | Inr prime \<Rightarrow> Inr (prime, r3)))))"

text \<open>The \<open>while True\<close> loop: \<open>None\<close> when no candidate ever passes.\<close>

partial_function (option) generate_n_digit_prime :: "int \<Rightarrow> rng \<Rightarrow> (error + (int \<times> rng)) option" where
  "generate_n_digit_prime n r =
     (case draw_candidate n r of
        Inl e \<Rightarrow> Some (Inl e)
      | Inr (prime, r3) \<Rightarrow>
          (case prime_test_miller_rabin prime 10 r3 of
             None \<Rightarrow> None
           | Some (Inl e) \<Rightarrow> Some (Inl e)
           | Some (Inr (passed, r4)) \<Rightarrow>
               if passed then Some (Inr (prime, r4))
               else generate_n_digit_prime n r4))"

declare generate_n_digit_prime.simps [code]

text \<open>
  The random source at the start of pass \<open>j + 1\<close> of that loop, when each of the first
  \<open>j\<close> passes drew a candidate that the test with 10 iterations rejected; \<open>None\<close>
  when the run does not go that way.
\<close>

fun pass_start :: "nat \<Rightarrow> int \<Rightarrow> rng \<Rightarrow> rng option" where
  "pass_start 0 n r = Some r"
| "pass_start (Suc j) n r =
     (case draw_candidate n r of
        Inl e \<Rightarrow> None
      | Inr (prime, r3) \<Rightarrow>
          (case prime_test_miller_rabin prime 10 r3 of
             None \<Rightarrow> None
           | Some (Inl e) \<Rightarrow> None
           | Some (Inr (passed, r4)) \<Rightarrow>
               if passed then None else pass_start j n r4))"

section \<open>Message codec\<close>

fun convert_to_bearcatii :: "string \<Rightarrow> error + int list" where
  "convert_to_bearcatii [] = Inr []"
| "convert_to_bearcatii (char # message) =
     (case get_index_from_character [char] of
        Inl e \<Rightarrow> Inl e
      | Inr i \<Rightarrow>
          (case convert_to_bearcatii message of
             Inl e \<Rightarrow> Inl e
           | Inr is \<Rightarrow> Inr (i # is)))"

fun convert_bearcatii_to_string :: "int list \<Rightarrow> error + string" where
  "convert_bearcatii_to_string [] = Inr []"
| "convert_bearcatii_to_string (index # bearcatii) =
     (case get_character_from_index index of
        Inl e \<Rightarrow> Inl e
      | Inr c \<Rightarrow>
          (case convert_bearcatii_to_string bearcatii of
             Inl e \<Rightarrow> Inl e
           | Inr s \<Rightarrow> Inr (c @ s)))"

text \<open>
  The \<open>while value\<close> loop with its \<open>output\<close> list.  It runs forever on a negative
  value (floor division never reaches 0) and at base 1, hence the option.
\<close>

partial_function (option) convert_loop :: "int \<Rightarrow> int \<Rightarrow> int list \<Rightarrow> (error + int list) option" where
  "convert_loop v n output =
     (if v \<noteq> 0 then
        (if n = 0 then Some (Inl ZeroDivisionError)
         else convert_loop (v div n) n ((v mod n) # output))
      else Some (Inr output))"

declare convert_loop.simps [code]

definition convert_to_base_n :: "int \<Rightarrow> int \<Rightarrow> (error + int list) option" where
  "convert_to_base_n v n = convert_loop v n []"

definition horner_eval :: "int list \<Rightarrow> int \<Rightarrow> int" where
  "horner_eval coefficients v = fold (\<lambda>coefficient output. output * v + coefficient) coefficients 0"

section \<open>RSA\<close>

definition euler_totient :: "int \<Rightarrow> int \<Rightarrow> int" where
  "euler_totient p q = (p - 1) * (q - 1)"

text \<open>
  What the statements about \<open>rsa\<close> mean by a prime: an integer above 1 that nothing
  strictly between 1 and itself divides.
\<close>

definition is_prime :: "int \<Rightarrow> bool" where
  "is_prime p \<longleftrightarrow> 1 < p \<and> (\<forall>m\<in>{2..<p}. \<not> m dvd p)"

text \<open>
  The prompt loop for the public key, over the integers the user enters: the first one
  that \<open>euclid_gcd\<close> finds coprime to \<open>phi\<close>; \<open>None\<close> when the entries run out.
\<close>

fun read_public_key :: "int list \<Rightarrow> int \<Rightarrow> int option" where
  "read_public_key [] phi = None"
| "read_public_key (e # es) phi = (if euclid_gcd e phi = 1 then Some e else read_public_key es phi)"

record rsa_output =
  out_p :: int
  out_q :: int
  out_n :: int
  out_M :: string
  out_C :: int
  out_P :: string

text \<open>
  The body of \<open>rsa\<close> from the two generated primes on: \<open>p\<close> and \<open>q\<close> are what the
  two calls of the generator returned, \<open>entries\<close> what the user types at the public-key
  prompt, \<open>message\<close> the text entered; the result is what is printed.
\<close>

definition rsa :: "int \<Rightarrow> int \<Rightarrow> int list \<Rightarrow> string \<Rightarrow> (error + rsa_output) option" where
  "rsa p q entries message =
     (let n = p * q; phi = euler_totient p q in
      case read_public_key entries phi of
        None \<Rightarrow> None
      | Some e \<Rightarrow>
          (case convert_to_bearcatii message of
             Inl er \<Rightarrow> Some (Inl er)
           | Inr message_to_bearcatii \<Rightarrow>
               (let bearcatii_to_decimal =
                      horner_eval message_to_bearcatii (int (length characters) + 1) in
                case powers bearcatii_to_decimal e n of
                  Inl er \<Rightarrow> Some (Inl er)
                | Inr C \<Rightarrow>
                    (case extended_euclid_gcd e phi of
                       (_, private_key, _) \<Rightarrow>
                         (case powers C private_key n of
                            Inl er \<Rightarrow> Some (Inl er)
                          | Inr decrypted \<Rightarrow>
                              (case convert_to_base_n decrypted (int (length characters) + 1) of
                                 None \<Rightarrow> None
                               | Some (Inl er) \<Rightarrow> Some (Inl er)
                               | Some (Inr decrypted_to_bearcatii) \<Rightarrow>
                                   (case convert_bearcatii_to_string decrypted_to_bearcatii of
                                      Inl er \<Rightarrow> Some (Inl er)
                                    | Inr decrypted_message \<Rightarrow>
                                        Some (Inr \<lparr>out_p = p, out_q = q, out_n = n,
                                                   out_M = message, out_C = C,
                                                   out_P = decrypted_message\<rparr>))))))))"

section \<open>Alphabet lookup: the boundary\<close>

lemma get_character_from_index_error_iff:
  "get_character_from_index index = Inl IndexError \<longleftrightarrow> index > 26 \<or> index < - 25"
  by (auto simp: get_character_from_index_def py_getitem_def characters_def)

lemma get_character_from_index_in_range:
  "1 \<le> index \<Longrightarrow> index \<le> 26 \<Longrightarrow>
   get_character_from_index index = Inr (characters ! nat (index - 1))"
  by (auto simp: get_character_from_index_def py_getitem_def characters_def)

text \<open>
  C6 (the code departs from the claim): the lookup returns \<open>A\<close> at position 1 and
  \<open>Z\<close> at position 26 and raises at position 27, but at position 0 it does not raise:
  the only guard is \<open>index > len(characters)\<close>, so \<open>characters[0 - 1]\<close> is
  Python's last element and the lookup wraps to \<open>Z\<close>.
\<close>

theorem get_character_from_index_boundary:
  "get_character_from_index 1 = Inr ''A'' \<and>
   get_character_from_index 26 = Inr ''Z'' \<and>
   get_character_from_index 27 = Inl IndexError \<and>
   get_character_from_index 0 = Inr ''Z''"
  by (simp add: get_character_from_index_def py_getitem_def characters_def)

section \<open>Euclid's algorithm\<close>

lemma euclid_gcd_sgn: "euclid_gcd a b = (if b = 0 then a else sgn b * gcd a b)"
proof (induction a b rule: euclid_gcd.induct)
  case (1 a b)
  show ?case
  proof (cases "b = 0")
    case True
    then show ?thesis by (simp add: euclid_gcd.simps)
  next
    case False
    have step: "euclid_gcd a b = euclid_gcd b (a mod b)"
      using False by (subst euclid_gcd.simps) simp
    show ?thesis
    proof (cases "a mod b = 0")
      case True
      then have "b dvd a" by auto
      then have "gcd a b = \<bar>b\<bar>" by (simp add: gcd_proj2_if_dvd)
      moreover have "euclid_gcd b (a mod b) = b"
        using True by (simp add: euclid_gcd.simps)
      ultimately show ?thesis using False step by (simp add: mult_sgn_abs)
    next
      case nz: False
      have "sgn (a mod b) = sgn b"
      proof (cases "0 < b")
        case True
        then have "0 \<le> a mod b" by simp
        with nz have "0 < a mod b" by simp
        with True show ?thesis by simp
      next
        case bneg: False
        with False have "b < 0" by simp
        then have "a mod b \<le> 0" by simp
        with nz have "a mod b < 0" by simp
        with \<open>b < 0\<close> show ?thesis by simp
      qed
      moreover have "gcd b (a mod b) = gcd a b"
        by (metis gcd_red_int)
      ultimately show ?thesis
        using "1.IH" [OF False] False nz step by simp
    qed
  qed
qed

lemma euclid_gcd_nonneg: "0 \<le> a \<Longrightarrow> 0 \<le> b \<Longrightarrow> euclid_gcd a b = gcd a b"
  by (simp add: euclid_gcd_sgn)

lemma euclid_gcd_pos_modulus: "0 < b \<Longrightarrow> euclid_gcd a b = gcd a b"
  by (simp add: euclid_gcd_sgn)

text \<open>
  C9, counterexample: on negative arguments the result is negative, so it is not the
  non-negative greatest common divisor.
\<close>

theorem euclid_gcd_negative_counterexample:
  "euclid_gcd 4 (- 6) = - 2 \<and> euclid_gcd 4 (- 6) \<noteq> gcd 4 (- 6) \<and> euclid_gcd (- 4) 0 = - 4"
  by code_simp

text \<open>
  C9, amended: \<open>euclid_gcd a 0 = a\<close>; for \<open>b \<noteq> 0\<close> the result is the greatest
  common divisor carrying the sign of \<open>b\<close>.  So its absolute value always is the
  greatest common divisor of \<open>a\<close> and \<open>b\<close>, and it is the non-negative greatest
  common divisor itself whenever \<open>a\<close> and \<open>b\<close> are non-negative.
\<close>

theorem euclid_gcd_amended:
  "euclid_gcd a 0 = a \<and>
   (b \<noteq> 0 \<longrightarrow> euclid_gcd a b = sgn b * gcd a b) \<and>
   \<bar>euclid_gcd a b\<bar> = gcd a b \<and>
   (0 \<le> a \<longrightarrow> 0 \<le> b \<longrightarrow> euclid_gcd a b = gcd a b \<and> 0 \<le> euclid_gcd a b)"
  by (simp add: euclid_gcd_sgn abs_mult abs_sgn_eq)

theorem euclid_gcd_amended_witness:
  "(18::int) \<noteq> 0 \<and> (0::int) \<le> 12 \<and> (0::int) \<le> 18 \<and>
   euclid_gcd 12 0 = 12 \<and> euclid_gcd 12 18 = 6 \<and> \<bar>euclid_gcd 12 18\<bar> = gcd 12 18"
proof -
  have g: "gcd (12::int) 18 = 6" by code_simp
  show ?thesis using euclid_gcd_amended [of 12 18] g by simp
qed

section \<open>Extended Euclid\<close>

lemma extended_euclid_gcd_bezout:
  "extended_euclid_gcd a b = (g, s, t) \<Longrightarrow> g = euclid_gcd a b \<and> s * a + t * b = g"
proof (induction a b arbitrary: g s t rule: extended_euclid_gcd.induct)
  case (1 a b)
  show ?case
  proof (cases "b = 0")
    case True
    with "1.prems" show ?thesis
      by (simp add: extended_euclid_gcd.simps euclid_gcd.simps)
  next
    case False
    obtain g' s' t' where rec: "extended_euclid_gcd b (a mod b) = (g', s', t')"
      by (cases "extended_euclid_gcd b (a mod b)") auto
    from "1.IH" [OF False rec]
    have ih: "g' = euclid_gcd b (a mod b)" "s' * b + t' * (a mod b) = g'" by simp_all
    have "extended_euclid_gcd a b = (g', t', s' - (a div b) * t')"
      using False rec by (subst extended_euclid_gcd.simps) simp
    with "1.prems" have res: "g = g'" "s = t'" "t = s' - (a div b) * t'"
      by auto
    have "euclid_gcd a b = euclid_gcd b (a mod b)"
      using False by (subst euclid_gcd.simps) simp
    moreover have "t' * a + (s' - (a div b) * t') * b = s' * b + t' * (a mod b)"
    proof -
      have "a = (a div b) * b + a mod b" by simp
      then have "t' * a = t' * ((a div b) * b) + t' * (a mod b)"
        by (metis distrib_left)
      then show ?thesis by (simp add: algebra_simps)
    qed
    ultimately show ?thesis using ih res by simp
  qed
qed

text \<open>
  C5: for non-negative \<open>a\<close> and \<open>b\<close> the result \<open>(g, s, t)\<close> has
  \<open>g = gcd a b\<close> and \<open>s * a + t * b = g\<close>; at \<open>b = 0\<close> it is \<open>(a, 1, 0)\<close>;
  otherwise it is built from the triple \<open>(g, s, t)\<close> for \<open>(b, a mod b)\<close> as
  \<open>(g, t, s - (a div b) * t)\<close>.
\<close>

theorem extended_euclid_gcd_correct:
  assumes "0 \<le> a" and "0 \<le> b"
  shows "(case extended_euclid_gcd a b of (g, s, t) \<Rightarrow> g = gcd a b \<and> s * a + t * b = g) \<and>
         extended_euclid_gcd a 0 = (a, 1, 0) \<and>
         (b \<noteq> 0 \<longrightarrow>
            extended_euclid_gcd a b =
              (case extended_euclid_gcd b (a mod b) of (g, s, t) \<Rightarrow> (g, t, s - (a div b) * t)))"
proof -
  obtain g s t where r: "extended_euclid_gcd a b = (g, s, t)"
    by (cases "extended_euclid_gcd a b") auto
  from extended_euclid_gcd_bezout [OF r] assms
  have "g = gcd a b" "s * a + t * b = g"
    by (simp_all add: euclid_gcd_nonneg)
  with r have first: "case extended_euclid_gcd a b of (g, s, t) \<Rightarrow> g = gcd a b \<and> s * a + t * b = g"
    by simp
  have base: "extended_euclid_gcd a 0 = (a, 1, 0)"
    by (simp add: extended_euclid_gcd.simps)
  have step: "b \<noteq> 0 \<longrightarrow>
      extended_euclid_gcd a b =
        (case extended_euclid_gcd b (a mod b) of (g, s, t) \<Rightarrow> (g, t, s - (a div b) * t))"
    by (subst extended_euclid_gcd.simps) simp
  from first base step show ?thesis by blast
qed

theorem extended_euclid_gcd_correct_witness:
  "(0::int) \<le> 240 \<and> (0::int) \<le> 46 \<and> (46::int) \<noteq> 0 \<and>
   extended_euclid_gcd 240 46 = (2, - 9, 47) \<and> gcd (240::int) 46 = 2 \<and>
   (- 9) * 240 + 47 * 46 = (2::int) \<and> extended_euclid_gcd 240 0 = (240, 1, 0)"
proof -
  have e: "extended_euclid_gcd 240 46 = (2, - 9, 47)" by code_simp
  have g: "gcd (240::int) 46 = 2" by code_simp
  show ?thesis
    using extended_euclid_gcd_correct [of 240 46] e g by simp
qed

section \<open>Modular exponentiation\<close>

lemma powers_nonneg:
  "0 \<le> n \<Longrightarrow> k \<noteq> 0 \<Longrightarrow> powers a n k = Inr (a ^ nat n mod k)"
proof (induction a n k rule: powers.induct)
  case (1 a n k)
  show ?case
  proof (cases "n = 0 \<or> n = 1")
    case True
    then show ?thesis using "1.prems" by (auto simp: powers.simps [of a n k] py_mod_def)
  next
    case False
    then have n0: "n \<noteq> 0" and n1: "n \<noteq> 1" by simp_all
    with "1.prems" have n2: "2 \<le> n" by simp
    then have nn: "\<not> n < 0" by simp
    have pm: "py_mod (a * a) k = Inr (a * a mod k)"
      using "1.prems" by (simp add: py_mod_def)
    show ?thesis
    proof (cases "n mod 2 = 0")
      case True
      have h: "0 \<le> n div 2" using n2 by simp
      have rec: "powers (a * a mod k) (n div 2) k = Inr ((a * a mod k) ^ nat (n div 2) mod k)"
        by (rule "1.IH"(2) [OF n0 n1 nn True pm h "1.prems"(2)])
      have "n = 2 * (n div 2)" using True by presburger
      then have "nat n = nat (2 * (n div 2))" by simp
      then have "nat n = 2 * nat (n div 2)" by (simp add: nat_mult_distrib)
      then have "a ^ nat n = (a * a) ^ nat (n div 2)"
        by (simp add: power_mult power2_eq_square)
      then have eq: "(a * a mod k) ^ nat (n div 2) mod k = a ^ nat n mod k"
        by (simp add: power_mod)
      have "powers a n k = powers (a * a mod k) (n div 2) k"
        using n0 n1 nn True pm by (subst powers.simps) simp
      with rec eq show ?thesis by simp
    next
      case odd: False
      have h: "0 \<le> (n - 1) div 2" using n2 by simp
      have rec: "powers (a * a mod k) ((n - 1) div 2) k
                 = Inr ((a * a mod k) ^ nat ((n - 1) div 2) mod k)"
        by (rule "1.IH"(3) [OF n0 n1 nn odd pm h "1.prems"(2)])
      have "n = 2 * ((n - 1) div 2) + 1" using odd by presburger
      then have "nat n = nat (2 * ((n - 1) div 2) + 1)" by simp
      then have "nat n = Suc (2 * nat ((n - 1) div 2))"
        using h by (simp add: nat_add_distrib nat_mult_distrib)
      then have "a ^ nat n = a * (a * a) ^ nat ((n - 1) div 2)"
        by (simp add: power_mult power2_eq_square)
      then have eq: "a * ((a * a mod k) ^ nat ((n - 1) div 2) mod k) mod k = a ^ nat n mod k"
        by (simp add: power_mod mod_mult_right_eq)
      have "powers a n k = py_mod (a * ((a * a mod k) ^ nat ((n - 1) div 2) mod k)) k"
        using n0 n1 nn odd pm rec by (subst powers.simps) simp
      with eq "1.prems" show ?thesis by (simp add: py_mod_def)
    qed
  qed
qed

text \<open>
  C3: for every base, every exponent \<open>n \<ge> 0\<close> and every modulus \<open>k \<ge> 1\<close>,
  \<open>powers\<close> returns \<open>base ^ n mod k\<close> (with \<open>0 ^ 0 = 1\<close>), a value in \<open>[0, k)\<close>.
\<close>

theorem powers_correct:
  assumes "0 \<le> n" and "1 \<le> k"
  shows "powers base n k = Inr (base ^ nat n mod k) \<and>
         0 \<le> base ^ nat n mod k \<and> base ^ nat n mod k < k"
  using assms by (simp add: powers_nonneg)

theorem powers_correct_witness:
  "(0::int) \<le> 13 \<and> (1::int) \<le> 497 \<and> powers 4 13 497 = Inr 445 \<and>
   (0::int) \<le> 0 \<and> (1::int) \<le> 5 \<and> powers 0 0 5 = Inr 1"
  using powers_correct [of 13 497 4] powers_correct [of 0 5 0] by simp

section \<open>Message codec: round trip\<close>

lemma length_characters: "length characters = 26"
  by (simp add: characters_def)

lemma get_index_loop_found:
  "x \<in> set cs \<Longrightarrow>
   \<exists>i. get_index_loop cs x k = Inr (k + int i + 1) \<and> i < length cs \<and> cs ! i = x"
proof (induction cs arbitrary: k)
  case Nil
  then show ?case by simp
next
  case (Cons c cs)
  show ?case
  proof (cases "c = x")
    case True
    then have "get_index_loop (c # cs) x k = Inr (k + int 0 + 1) \<and> 0 < length (c # cs) \<and> (c # cs) ! 0 = x"
      by simp
    then show ?thesis by blast
  next
    case False
    with Cons.prems have "x \<in> set cs" by simp
    from Cons.IH [OF this, of "k + 1"] obtain i where
      i: "get_index_loop cs x (k + 1) = Inr (k + 1 + int i + 1)" "i < length cs" "cs ! i = x"
      by blast
    with False have "get_index_loop (c # cs) x k = Inr (k + int (Suc i) + 1) \<and>
        Suc i < length (c # cs) \<and> (c # cs) ! Suc i = x"
      by simp
    then show ?thesis by blast
  qed
qed

lemma get_index_from_character_known:
  assumes "x \<in> set characters"
  shows "\<exists>p. get_index_from_character x = Inr p \<and> 1 \<le> p \<and> p \<le> 26 \<and>
             get_character_from_index p = Inr x"
proof -
  from get_index_loop_found [OF assms, of 0] obtain i where
    i: "get_index_loop characters x 0 = Inr (int i + 1)" "i < length characters" "characters ! i = x"
    by auto
  have "get_character_from_index (int i + 1) = Inr x"
    using i(2,3) by (simp add: get_character_from_index_def py_getitem_def)
  with i show ?thesis
    by (auto simp: get_index_from_character_def length_characters)
qed

lemma convert_to_bearcatii_known:
  "\<forall>c\<in>set S. [c] \<in> set characters \<Longrightarrow>
   \<exists>ps. convert_to_bearcatii S = Inr ps \<and> (\<forall>p\<in>set ps. 1 \<le> p \<and> p \<le> 26) \<and>
         convert_bearcatii_to_string ps = Inr S"
proof (induction S)
  case Nil
  then show ?case by simp
next
  case (Cons c S)
  then have "[c] \<in> set characters" by simp
  from get_index_from_character_known [OF this] obtain p where
    p: "get_index_from_character [c] = Inr p" "1 \<le> p" "p \<le> 26" "get_character_from_index p = Inr [c]"
    by blast
  from Cons obtain ps where
    ps: "convert_to_bearcatii S = Inr ps" "\<forall>p\<in>set ps. 1 \<le> p \<and> p \<le> 26"
        "convert_bearcatii_to_string ps = Inr S"
    by auto
  from p ps have "convert_to_bearcatii (c # S) = Inr (p # ps) \<and>
      (\<forall>p\<in>set (p # ps). 1 \<le> p \<and> p \<le> 26) \<and> convert_bearcatii_to_string (p # ps) = Inr (c # S)"
    by simp
  then show ?case by blast
qed

lemma horner_eval_snoc: "horner_eval (ds @ [d]) b = horner_eval ds b * b + d"
  by (simp add: horner_eval_def)

lemma horner_eval_nonneg: "0 \<le> b \<Longrightarrow> \<forall>d\<in>set ds. 0 \<le> d \<Longrightarrow> 0 \<le> horner_eval ds b"
  by (induction ds rule: rev_induct) (simp_all add: horner_eval_def)

lemma convert_loop_horner:
  "1 < b \<Longrightarrow> \<forall>d\<in>set ds. 1 \<le> d \<and> d < b \<Longrightarrow>
   convert_loop (horner_eval ds b) b out = Some (Inr (ds @ out))"
proof (induction ds arbitrary: out rule: rev_induct)
  case Nil
  show ?case by (subst convert_loop.simps) (simp add: horner_eval_def)
next
  case (snoc d ds)
  let ?h = "horner_eval ds b"
  have d: "1 \<le> d" "d < b" using snoc.prems by simp_all
  have h0: "0 \<le> ?h" using snoc.prems by (intro horner_eval_nonneg) auto
  have v: "horner_eval (ds @ [d]) b = ?h * b + d" by (rule horner_eval_snoc)
  have "0 \<le> ?h * b" using h0 snoc.prems(1) by simp
  then have nz: "?h * b + d \<noteq> 0" using d by linarith
  have dv: "(?h * b + d) div b = ?h" using d snoc.prems(1) by simp
  have md: "(?h * b + d) mod b = d" using d snoc.prems(1) by simp
  have "convert_loop (?h * b + d) b out = convert_loop ?h b (d # out)"
    using nz dv md snoc.prems(1) by (subst convert_loop.simps) simp
  also have "\<dots> = Some (Inr (ds @ d # out))"
    using snoc.IH [of "d # out"] snoc.prems by simp
  finally show ?case using v by simp
qed

text \<open>
  C2: for every message \<open>S\<close> of length at least 1 over the alphabet, the positions of
  its symbols, evaluated by Horner's rule at radix 27, converted back to base 27 and
  mapped back to characters, give \<open>S\<close> again; no step raises, and the conversion loop
  returns.
\<close>

theorem codec_round_trip:
  assumes "\<forall>c\<in>set S. [c] \<in> set characters" and "1 \<le> length S"
  shows "\<exists>positions. convert_to_bearcatii S = Inr positions \<and>
           convert_to_base_n (horner_eval positions 27) 27 = Some (Inr positions) \<and>
           convert_bearcatii_to_string positions = Inr S"
proof -
  from convert_to_bearcatii_known [OF assms(1)] obtain ps where
    ps: "convert_to_bearcatii S = Inr ps" "\<forall>p\<in>set ps. 1 \<le> p \<and> p \<le> 26"
        "convert_bearcatii_to_string ps = Inr S"
    by blast
  from ps(2) have "\<forall>d\<in>set ps. 1 \<le> d \<and> d < 27" by auto
  then have "convert_loop (horner_eval ps 27) 27 [] = Some (Inr (ps @ []))"
    by (intro convert_loop_horner) simp_all
  with ps show ?thesis by (auto simp: convert_to_base_n_def)
qed

theorem codec_round_trip_witness:
  "list_all (\<lambda>c. [c] \<in> set characters) ''HELLO'' \<and> 1 \<le> length ''HELLO'' \<and>
   convert_to_bearcatii ''HELLO'' = Inr [8, 5, 12, 12, 15] \<and>
   horner_eval [8, 5, 12, 12, 15] 27 = 4359030 \<and>
   convert_to_base_n 4359030 27 = Some (Inr [8, 5, 12, 12, 15]) \<and>
   convert_bearcatii_to_string [8, 5, 12, 12, 15] = Inr ''HELLO''"
proof -
  have h1: "\<forall>c\<in>set ''HELLO''. [c] \<in> set characters" by (simp add: characters_def)
  have h2: "1 \<le> length ''HELLO''" by simp
  have e: "convert_to_bearcatii ''HELLO'' = Inr [8, 5, 12, 12, 15]" by code_simp
  have h: "horner_eval [8, 5, 12, 12, 15] 27 = 4359030" by (simp add: horner_eval_def)
  have h1': "list_all (\<lambda>c. [c] \<in> set characters) ''HELLO''"
    using h1 by (simp only: list_all_iff)
  from codec_round_trip [OF h1 h2] e h have
    "convert_to_base_n 4359030 27 = Some (Inr [8, 5, 12, 12, 15]) \<and>
     convert_bearcatii_to_string [8, 5, 12, 12, 15] = Inr ''HELLO''"
    by auto
  with h1' h2 e h show ?thesis by blast
qed

section \<open>Negative exponents\<close>

lemma powers_negative_unfold:
  "n < 0 \<Longrightarrow> extended_euclid_gcd a k = (g, s, t) \<Longrightarrow>
   powers a n k =
     (if g \<noteq> 1 then Inl ValueError
      else if k = 0 then Inl ZeroDivisionError
      else powers (s mod k) (- n) k)"
  by (subst powers.simps) (simp add: py_mod_def)

lemma powers_negative_error_iff:
  assumes "n < 0"
  shows "powers a n k = Inl ValueError \<longleftrightarrow> euclid_gcd a k \<noteq> 1"
proof -
  obtain g s t where r: "extended_euclid_gcd a k = (g, s, t)"
    by (cases "extended_euclid_gcd a k") auto
  from extended_euclid_gcd_bezout [OF r] have g: "g = euclid_gcd a k" by simp
  show ?thesis
  proof (cases "g = 1")
    case False
    with powers_negative_unfold [OF assms r] g show ?thesis by simp
  next
    case True
    show ?thesis
    proof (cases "k = 0")
      case True
      with \<open>g = 1\<close> powers_negative_unfold [OF assms r] g show ?thesis by simp
    next
      case False
      have "0 \<le> - n" using assms by simp
      from powers_nonneg [OF this False, of "s mod k"] \<open>g = 1\<close> False
        powers_negative_unfold [OF assms r] g
      show ?thesis by simp
    qed
  qed
qed

lemma powers_inverse:
  assumes "1 < k" and "gcd a k = 1"
  shows "\<exists>r. powers a (- 1) k = Inr r \<and> 0 \<le> r \<and> r < k \<and> r * a mod k = 1"
proof -
  obtain g s t where r: "extended_euclid_gcd a k = (g, s, t)"
    by (cases "extended_euclid_gcd a k") auto
  from extended_euclid_gcd_bezout [OF r] assms
  have g: "g = 1" and bez: "s * a + t * k = 1"
    by (simp_all add: euclid_gcd_pos_modulus)
  have k0: "k \<noteq> 0" using assms by simp
  have "powers a (- 1) k = powers (s mod k) 1 k"
    using powers_negative_unfold [OF _ r, of "- 1"] g k0 by simp
  also have "\<dots> = Inr (s mod k)"
    using powers_nonneg [of 1 k "s mod k"] k0 by simp
  finally have p: "powers a (- 1) k = Inr (s mod k)" .
  have "(s mod k) * a mod k = (s * a) mod k" by (simp add: mod_mult_left_eq)
  also have "\<dots> = (s * a + t * k) mod k" by simp
  also have "\<dots> = 1" using bez assms by simp
  finally have "(s mod k) * a mod k = 1" .
  with p assms show ?thesis by simp
qed

text \<open>
  C4, counterexample: at the modulus \<open>- 2\<close> the base 1 is coprime to the modulus, and
  \<open>powers\<close> still raises \<open>ValueError\<close>: the \<open>g\<close> of \<open>extended_euclid_gcd\<close>
  carries the sign of the modulus and is \<open>- 1\<close>.
\<close>

theorem powers_negative_modulus_counterexample:
  "powers 1 (- 1) (- 2) = Inl ValueError \<and> gcd (1::int) (- 2) = 1"
  by code_simp

text \<open>
  C4, amended: at a negative exponent \<open>powers\<close> raises \<open>ValueError\<close> (the inverse does
  not exist) exactly when the \<open>g\<close> that \<open>extended_euclid_gcd\<close> returns, which is
  \<open>euclid_gcd base k\<close>, is not 1.  So at a modulus \<open>k > 0\<close> it raises it exactly when
  the greatest common divisor of base and modulus is not 1; at a modulus \<open>k < 0\<close> it
  always raises it; at the modulus 0 it raises it exactly when the base is not 1.  For
  \<open>k > 1\<close> and a base coprime to \<open>k\<close>, \<open>powers base (- 1) k\<close> times the base is 1
  modulo \<open>k\<close>.
\<close>

theorem powers_negative_exponent:
  "(n < 0 \<longrightarrow> (powers base n k = Inl ValueError \<longleftrightarrow> euclid_gcd base k \<noteq> 1)) \<and>
   (n < 0 \<longrightarrow> 0 < k \<longrightarrow> (powers base n k = Inl ValueError \<longleftrightarrow> gcd base k \<noteq> 1)) \<and>
   (n < 0 \<longrightarrow> k < 0 \<longrightarrow> powers base n k = Inl ValueError) \<and>
   (n < 0 \<longrightarrow> k = 0 \<longrightarrow> (powers base n k = Inl ValueError \<longleftrightarrow> base \<noteq> 1)) \<and>
   (1 < k \<longrightarrow> gcd base k = 1 \<longrightarrow> (\<exists>r. powers base (- 1) k = Inr r \<and> r * base mod k = 1))"
proof -
  have a: "n < 0 \<longrightarrow> (powers base n k = Inl ValueError \<longleftrightarrow> euclid_gcd base k \<noteq> 1)"
    using powers_negative_error_iff by blast
  have b: "n < 0 \<longrightarrow> 0 < k \<longrightarrow> (powers base n k = Inl ValueError \<longleftrightarrow> gcd base k \<noteq> 1)"
    using powers_negative_error_iff [of n base k] euclid_gcd_pos_modulus [of k base] by simp
  have c: "n < 0 \<longrightarrow> k < 0 \<longrightarrow> powers base n k = Inl ValueError"
  proof (intro impI)
    assume n: "n < 0" and k: "k < 0"
    have "0 \<le> gcd base k" by simp
    with k have "euclid_gcd base k \<le> 0" by (simp add: euclid_gcd_sgn)
    then have "euclid_gcd base k \<noteq> 1" by simp
    with powers_negative_error_iff [OF n] show "powers base n k = Inl ValueError" by simp
  qed
  have d: "n < 0 \<longrightarrow> k = 0 \<longrightarrow> (powers base n k = Inl ValueError \<longleftrightarrow> base \<noteq> 1)"
  proof (intro impI)
    assume n: "n < 0" and k: "k = 0"
    have "euclid_gcd base 0 = base" by (simp add: euclid_gcd_sgn)
    with powers_negative_error_iff [OF n, of base 0] k
    show "powers base n k = Inl ValueError \<longleftrightarrow> base \<noteq> 1" by simp
  qed
  have e: "1 < k \<longrightarrow> gcd base k = 1 \<longrightarrow> (\<exists>r. powers base (- 1) k = Inr r \<and> r * base mod k = 1)"
  proof (intro impI)
    assume "1 < k" and "gcd base k = 1"
    from powers_inverse [OF this] obtain r where
      "powers base (- 1) k = Inr r" "r * base mod k = 1" by blast
    then show "\<exists>r. powers base (- 1) k = Inr r \<and> r * base mod k = 1" by blast
  qed
  from a b c d e show ?thesis by blast
qed

theorem powers_negative_exponent_witness:
  "(- 1 :: int) < 0 \<and> (0::int) < 7 \<and> (1::int) < 7 \<and> gcd (3::int) 7 = 1 \<and>
   euclid_gcd 3 7 = 1 \<and> powers 3 (- 1) 7 = Inr 5 \<and> (5 * 3) mod 7 = (1::int) \<and>
   (- 2 :: int) < 0 \<and> (0::int) < 6 \<and> gcd (4::int) 6 \<noteq> 1 \<and> powers 4 (- 2) 6 = Inl ValueError \<and>
   (- 2 :: int) < 0 \<and> powers 1 (- 1) (- 2) = Inl ValueError \<and>
   (0::int) = 0 \<and> (- 1 :: int) \<noteq> 1 \<and> powers (- 1) (- 1) 0 = Inl ValueError"
proof -
  have g: "gcd (3::int) 7 = 1" by code_simp
  have e: "euclid_gcd 3 7 = 1" by code_simp
  have p: "powers 3 (- 1) 7 = Inr 5" by code_simp
  have g': "gcd (4::int) 6 \<noteq> 1" by code_simp
  have i1: "powers 4 (- 2) 6 = Inl ValueError"
    using powers_negative_exponent [of "- 2" 4 6] g' by simp
  have i2: "powers 1 (- 1) (- 2) = Inl ValueError"
    using powers_negative_exponent [of "- 1" 1 "- 2"] by simp
  have i3: "powers (- 1) (- 1) 0 = Inl ValueError"
    using powers_negative_exponent [of "- 1" "- 1" 0] by simp
  show ?thesis
    using powers_negative_exponent [of "- 1" 3 7] g e p g' i1 i2 i3 by simp
qed

section \<open>Primality test: when it returns\<close>

lemma mr_halving_returns:
  "0 < k \<Longrightarrow> n \<noteq> 0 \<Longrightarrow> \<exists>b. mr_halving a k n = Some (Inr b)"
proof (induction "nat k" arbitrary: k rule: less_induct)
  case less
  show ?case
  proof (cases "k mod 2 = 0")
    case False
    then have "mr_halving a k n = Some (Inr True)"
      by (subst mr_halving.simps) simp
    then show ?thesis by blast
  next
    case True
    with less.prems have "0 < k div 2" "k div 2 < k" by presburger+
    then have half: "0 < k div 2" "nat (k div 2) < nat k" by simp_all
    then have p: "powers a (k div 2) n = Inr (a ^ nat (k div 2) mod n)"
      using less.prems by (simp add: powers_nonneg)
    let ?x = "a ^ nat (k div 2) mod n"
    have u: "mr_halving a k n =
        (if ?x = n - 1 then Some (Inr True)
         else if ?x \<noteq> 1 then Some (Inr False)
         else mr_halving a (k div 2) n)"
      using True p by (subst mr_halving.simps) simp
    from less.hyps [OF half(2) half(1) less.prems(2)]
    obtain b where "mr_halving a (k div 2) n = Some (Inr b)" by blast
    with u show ?thesis by auto
  qed
qed

lemma mr_rounds_returns:
  "4 \<le> n \<Longrightarrow> \<exists>b r'. mr_rounds i n r = Some (Inr (b, r'))"
proof (induction i arbitrary: r)
  case 0
  then show ?case by auto
next
  case (Suc i)
  let ?a = "2 + int (r 0 mod nat (n - 2 - 2 + 1))"
  have d: "get_random_int_between 2 (n - 2) r = Inr (?a, r \<circ> Suc)"
    using Suc.prems by (simp add: get_random_int_between_def)
  have n0: "n \<noteq> 0" and k: "0 < n - 1" using Suc.prems by simp_all
  have p: "powers ?a (n - 1) n = Inr (?a ^ nat (n - 1) mod n)"
    using k n0 by (simp add: powers_nonneg)
  from mr_halving_returns [OF k n0] obtain b where
    h: "mr_halving ?a (n - 1) n = Some (Inr b)" by blast
  from Suc.IH [OF Suc.prems] obtain b' r' where
    ih: "mr_rounds i n (r \<circ> Suc) = Some (Inr (b', r'))" by blast
  show ?case
    using d p h ih by (cases b) (auto simp: Let_def)
qed

lemma mr_rounds_small:
  "n \<le> 3 \<Longrightarrow> mr_rounds (Suc i) n r = Some (Inl ValueError)"
  by (simp add: get_random_int_between_def)

lemma prime_test_miller_rabin_returns:
  "4 \<le> n \<Longrightarrow> \<exists>b r'. prime_test_miller_rabin n iterations r = Some (Inr (b, r'))"
  by (simp add: prime_test_miller_rabin_def mr_rounds_returns)

lemma prime_test_miller_rabin_no_rounds:
  "iterations \<le> 0 \<Longrightarrow> prime_test_miller_rabin n iterations r = Some (Inr (True, r))"
  by (simp add: prime_test_miller_rabin_def)

lemma prime_test_miller_rabin_raises:
  assumes "n \<le> 3" and "1 \<le> iterations"
  shows "prime_test_miller_rabin n iterations r = Some (Inl ValueError)"
proof -
  from assms(2) obtain i where "nat iterations = Suc i"
    by (cases "nat iterations") auto
  with assms(1) show ?thesis
    by (simp add: prime_test_miller_rabin_def mr_rounds_small del: mr_rounds.simps)
qed

lemma prime_test_miller_rabin_raises_iff:
  "prime_test_miller_rabin n iterations r = Some (Inl ValueError) \<longleftrightarrow> n \<le> 3 \<and> 1 \<le> iterations"
proof (cases "n \<le> 3 \<and> 1 \<le> iterations")
  case True
  then show ?thesis by (simp add: prime_test_miller_rabin_raises)
next
  case False
  then consider "4 \<le> n" | "iterations \<le> 0" by linarith
  then have "prime_test_miller_rabin n iterations r \<noteq> Some (Inl ValueError)"
  proof cases
    case 1
    from prime_test_miller_rabin_returns [OF 1, of iterations r] show ?thesis by auto
  next
    case 2
    then show ?thesis by (simp add: prime_test_miller_rabin_no_rounds)
  qed
  with False show ?thesis by blast
qed

text \<open>
  C7 (the code departs from the claim): at \<open>n = 2\<close> and \<open>n = 3\<close> a round draws the
  witness from the empty range \<open>[2, n - 2]\<close>, and \<open>random.randint\<close> raises
  \<open>ValueError\<close>, whatever the random source holds.
\<close>

theorem prime_test_miller_rabin_small_raises:
  "prime_test_miller_rabin 2 1 r = Some (Inl ValueError) \<and>
   prime_test_miller_rabin 3 1 r = Some (Inl ValueError)"
  by (simp add: prime_test_miller_rabin_raises)

section \<open>Prime generator: the candidate\<close>

lemma of_char_digit_char: "d < 10 \<Longrightarrow> (of_char (digit_char d) :: nat) = 48 + d"
  by (simp add: digit_char_def)

lemma py_str_digit: "0 \<le> d \<Longrightarrow> d \<le> 9 \<Longrightarrow> py_str d = [digit_char (nat d)]"
  by (simp add: py_str_def str_nat.simps)

lemma parse_digits_digit_chars:
  "\<forall>d\<in>set ds. d < 10 \<Longrightarrow>
   parse_digits (map digit_char ds) acc
     = Inr (fold (\<lambda>coefficient output. output * 10 + coefficient) (map int ds) acc)"
  by (induction ds arbitrary: acc) (simp_all add: of_char_digit_char Let_def)

lemma py_int_digit_chars:
  "ds \<noteq> [] \<Longrightarrow> \<forall>d\<in>set ds. d < 10 \<Longrightarrow>
   py_int (map digit_char ds) = Inr (horner_eval (map int ds) 10)"
  by (simp add: py_int_def horner_eval_def parse_digits_digit_chars)

lemma fold_horner_acc:
  "fold (\<lambda>coefficient output. output * b + coefficient) ds acc
     = acc * b ^ length ds + fold (\<lambda>coefficient output. output * b + coefficient) ds (0::int)"
proof (induction ds arbitrary: acc)
  case Nil
  show ?case by simp
next
  case (Cons d ds)
  let ?f = "\<lambda>coefficient output. output * b + coefficient"
  have "fold ?f (d # ds) acc = fold ?f ds (acc * b + d)" by simp
  also have "\<dots> = (acc * b + d) * b ^ length ds + fold ?f ds 0" by (rule Cons.IH)
  also have "\<dots> = acc * b ^ length (d # ds) + (d * b ^ length ds + fold ?f ds 0)"
    by (simp add: algebra_simps)
  also have "d * b ^ length ds + fold ?f ds 0 = fold ?f ds d" by (rule Cons.IH [symmetric])
  also have "fold ?f ds d = fold ?f (d # ds) 0" by simp
  finally show ?case .
qed

lemma horner_eval_Cons: "horner_eval (d # ds) b = d * b ^ length ds + horner_eval ds b"
  using fold_horner_acc [of b ds d] by (simp add: horner_eval_def)

lemma horner_eval_less:
  "0 < b \<Longrightarrow> \<forall>d\<in>set ds. 0 \<le> d \<and> d < b \<Longrightarrow> horner_eval ds b < b ^ length ds"
proof (induction ds rule: rev_induct)
  case Nil
  show ?case by (simp add: horner_eval_def)
next
  case (snoc d ds)
  then have ih: "horner_eval ds b + 1 \<le> b ^ length ds" and d: "d < b" by simp_all
  from ih snoc.prems(1) have "(horner_eval ds b + 1) * b \<le> b ^ length ds * b"
    by (intro mult_right_mono) simp_all
  with d show ?case by (simp add: horner_eval_snoc algebra_simps)
qed

lemma leading_digit_bounds:
  fixes f x P :: int
  assumes "1 \<le> f" and "f \<le> 9" and "0 \<le> x" and "x < P" and "0 < P"
  shows "P \<le> f * P + x \<and> f * P + x < 10 * P"
proof -
  have "P \<le> f * P" using mult_right_mono [of 1 f P] assms(1,5) by simp
  moreover have "f * P \<le> 9 * P" using mult_right_mono [of f 9 P] assms(2,5) by simp
  ultimately show ?thesis using assms(3,4) by linarith
qed

lemma middle_digits_returns:
  "\<exists>ds r'. middle_digits m r = Inr (map digit_char ds, r') \<and> length ds = m \<and> (\<forall>d\<in>set ds. d < 10)"
proof (induction m arbitrary: r)
  case 0
  show ?case by simp
next
  case (Suc m)
  let ?d = "r 0 mod 10"
  have g: "get_random_int_between 0 9 r = Inr (int ?d, r \<circ> Suc)"
    by (simp add: get_random_int_between_def)
  from Suc [of "r \<circ> Suc"] obtain ds r' where
    ih: "middle_digits m (r \<circ> Suc) = Inr (map digit_char ds, r')" "length ds = m" "\<forall>d\<in>set ds. d < 10"
    by blast
  have "?d < 10" by simp
  then have "0 \<le> int ?d" "int ?d \<le> 9" by linarith+
  from py_str_digit [OF this] have "py_str (int ?d) = [digit_char ?d]"
    unfolding nat_int .
  with g ih have "middle_digits (Suc m) r = Inr (map digit_char (?d # ds), r') \<and>
      length (?d # ds) = Suc m \<and> (\<forall>d\<in>set (?d # ds). d < 10)"
    by simp
  then show ?case by blast
qed

lemma draw_candidate_shape:
  "\<exists>v r3. draw_candidate n r = Inr (v, r3) \<and>
     10 ^ (nat (n - 2) + 1) \<le> v \<and> v < 10 ^ (nat (n - 2) + 2) \<and> v mod 10 \<in> {1, 3, 7, 9}"
proof -
  let ?m = "nat (n - 2)"
  let ?f = "1 + r 0 mod 9"
  have g: "get_random_int_between 1 9 r = Inr (int ?f, r \<circ> Suc)"
    by (simp add: get_random_int_between_def)
  from middle_digits_returns [of ?m "r \<circ> Suc"] obtain ds r2 where
    md: "middle_digits ?m (r \<circ> Suc) = Inr (map digit_char ds, r2)" "length ds = ?m"
        "\<forall>d\<in>set ds. d < 10"
    by blast
  let ?l = "[1, 3, 7, 9 :: nat] ! (r2 0 mod 4)"
  have lset: "?l \<in> {1, 3, 7, 9}"
  proof -
    have "r2 0 mod 4 < 4" by simp
    then consider "r2 0 mod 4 = 0" | "r2 0 mod 4 = 1" | "r2 0 mod 4 = 2" | "r2 0 mod 4 = 3"
      by linarith
    then show ?thesis by cases simp_all
  qed
  have "[1, 3, 7, 9 :: int] ! (r2 0 mod 4) = int ?l"
    using nth_map [of "r2 0 mod 4" "[1, 3, 7, 9 :: nat]" int] by simp
  then have c: "random_choice [1, 3, 7, 9 :: int] r2 = Inr (int ?l, r2 \<circ> Suc)"
    by (simp add: random_choice_def)
  have l10: "?l < 10" using lset by auto
  have f1: "1 \<le> int ?f" and f9: "int ?f \<le> 9"
  proof -
    show "1 \<le> int ?f" by simp
    have "r 0 mod 9 < 9" by simp
    then show "int ?f \<le> 9" by linarith
  qed
  have f0: "0 \<le> int ?f" and l0: "0 \<le> int ?l" and l9: "int ?l \<le> 9"
    using l10 by simp_all
  have sf: "py_str (int ?f) = [digit_char ?f]"
    using py_str_digit [OF f0 f9] unfolding nat_int .
  have sl: "py_str (int ?l) = [digit_char ?l]"
    using py_str_digit [OF l0 l9] unfolding nat_int .
  let ?ds = "?f # ds @ [?l]"
  let ?v = "horner_eval (map int ?ds) 10"
  have all: "\<forall>d\<in>set ?ds. d < 10" using md(3) l10 by auto
  have "py_int (py_str (int ?f) @ map digit_char ds @ py_str (int ?l)) = py_int (map digit_char ?ds)"
    using sf sl by simp
  also have "\<dots> = Inr ?v"
    using all by (intro py_int_digit_chars) simp_all
  finally have pi: "py_int (py_str (int ?f) @ map digit_char ds @ py_str (int ?l)) = Inr ?v" .
  have dc: "draw_candidate n r = Inr (?v, r2 \<circ> Suc)"
    using g md(1) c pi by (simp add: draw_candidate_def)
  let ?rest = "map int (ds @ [?l])"
  have len: "length ?rest = ?m + 1" using md(2) by simp
  have v: "?v = int ?f * 10 ^ (?m + 1) + horner_eval ?rest 10"
    using horner_eval_Cons [of "int ?f" ?rest 10] len by simp
  have "\<forall>d\<in>set ?rest. 0 \<le> d \<and> d < 10" using md(3) l10 by auto
  then have r0: "0 \<le> horner_eval ?rest 10" and r1: "horner_eval ?rest 10 < 10 ^ (?m + 1)"
    using horner_eval_nonneg [of 10 ?rest] horner_eval_less [of 10 ?rest] len by simp_all
  have p0: "(0::int) < 10 ^ (?m + 1)" by simp
  have pw: "(10::int) ^ (?m + 2) = 10 * 10 ^ (?m + 1)" by simp
  from leading_digit_bounds [OF f1 f9 r0 r1 p0]
  have lo: "10 ^ (?m + 1) \<le> ?v" and hi: "?v < 10 ^ (?m + 2)"
    unfolding v pw by blast+
  have "map int ?ds = map int (?f # ds) @ [int ?l]" by simp
  then have "?v = horner_eval (map int (?f # ds)) 10 * 10 + int ?l"
    using horner_eval_snoc [of "map int (?f # ds)" "int ?l" 10] by simp
  then have "?v mod 10 = int ?l" using l10 by simp
  with lset have md10: "?v mod 10 \<in> {1, 3, 7, 9}" by auto
  from dc lo hi md10 show ?thesis by blast
qed

section \<open>Prime generator: what it returns\<close>

text \<open>
  Whatever the loop returns is the candidate of its last pass, accepted by the test with 10
  iterations after every earlier pass was rejected (by fixpoint induction on the loop);
  and the first accepted candidate is what the loop returns.
\<close>

lemma generate_n_digit_prime_run:
  assumes "generate_n_digit_prime n r = Some y"
  shows "\<exists>j r0 v r3 r'. pass_start j n r = Some r0 \<and> draw_candidate n r0 = Inr (v, r3) \<and>
           prime_test_miller_rabin v 10 r3 = Some (Inr (True, r')) \<and> y = Inr (v, r')"
proof (rule generate_n_digit_prime.raw_induct
    [where P = "\<lambda>n r y. \<exists>j r0 v r3 r'. pass_start j n r = Some r0 \<and>
           draw_candidate n r0 = Inr (v, r3) \<and>
           prime_test_miller_rabin v 10 r3 = Some (Inr (True, r')) \<and> y = Inr (v, r')",
     OF _ assms], goal_cases)
  case (1 gen n r y)
  from draw_candidate_shape [of n r] obtain v r3 where
    dc: "draw_candidate n r = Inr (v, r3)" and lo: "10 ^ (nat (n - 2) + 1) \<le> v"
    by blast
  have "(10::int) \<le> 10 ^ (nat (n - 2) + 1)" by simp
  with lo have "4 \<le> v" by linarith
  from prime_test_miller_rabin_returns [OF this, of 10 r3] obtain b r4 where
    pt: "prime_test_miller_rabin v 10 r3 = Some (Inr (b, r4))" by blast
  show ?case
  proof (cases b)
    case True
    with "1"(2) dc pt have y: "y = Inr (v, r4)" by simp
    from pt True have "prime_test_miller_rabin v 10 r3 = Some (Inr (True, r4))" by simp
    moreover have "pass_start 0 n r = Some r" by simp
    ultimately show ?thesis using dc y by blast
  next
    case False
    with "1"(2) dc pt have "gen n r4 = Some y" by simp
    from "1"(1) [OF this] obtain j r0 v' r3' r' where
      ih: "pass_start j n r4 = Some r0" "draw_candidate n r0 = Inr (v', r3')"
          "prime_test_miller_rabin v' 10 r3' = Some (Inr (True, r'))" "y = Inr (v', r')"
      by blast
    from dc pt False ih(1) have "pass_start (Suc j) n r = Some r0" by simp
    with ih(2-4) show ?thesis by blast
  qed
qed

lemma generate_n_digit_prime_first_pass:
  "pass_start j n r = Some r0 \<Longrightarrow> draw_candidate n r0 = Inr (v, r3) \<Longrightarrow>
   prime_test_miller_rabin v 10 r3 = Some (Inr (True, r')) \<Longrightarrow>
   generate_n_digit_prime n r = Some (Inr (v, r'))"
proof (induction j arbitrary: r)
  case 0
  then show ?case by (subst generate_n_digit_prime.simps) simp
next
  case (Suc j)
  from Suc.prems(1) obtain c rc b r4 where
    dc: "draw_candidate n r = Inr (c, rc)" and
    pt: "prime_test_miller_rabin c 10 rc = Some (Inr (b, r4))"
    by (auto split: sum.splits option.splits)
  with Suc.prems(1) have nb: "\<not> b" and ps: "pass_start j n r4 = Some r0"
    by (auto split: if_splits)
  have "generate_n_digit_prime n r = generate_n_digit_prime n r4"
    using dc pt nb by (subst generate_n_digit_prime.simps) simp
  with Suc.IH [OF ps Suc.prems(2,3)] show ?case by simp
qed

lemma constant_draws_Suc: "constant_draws c \<circ> Suc = constant_draws c"
  by (simp add: constant_draws_def comp_def)

lemma draw_candidate_two_digits: "draw_candidate 2 (constant_draws 0) = Inr (11, constant_draws 0)"
  by (simp add: draw_candidate_def get_random_int_between_def random_choice_def py_int_def
      py_str_def str_nat.simps digit_char_def constant_draws_def comp_def)

lemma mr_halving_eleven: "mr_halving 2 10 11 = Some (Inr True)"
  by (simp add: mr_halving.simps powers_nonneg)

lemma witness_draw_eleven: "get_random_int_between 2 9 (constant_draws 0) = Inr (2, constant_draws 0)"
  unfolding get_random_int_between_def constant_draws_Suc
  by (simp add: constant_draws_def)

lemma mr_rounds_eleven: "mr_rounds i 11 (constant_draws 0) = Some (Inr (True, constant_draws 0))"
  by (induction i) (simp_all add: witness_draw_eleven powers_nonneg mr_halving_eleven)

lemma prime_test_miller_rabin_eleven: "prime_test_miller_rabin 11 10 (constant_draws 0) = Some (Inr (True, constant_draws 0))"
  by (simp add: prime_test_miller_rabin_def mr_rounds_eleven del: mr_rounds.simps)

lemma generate_two_digits: "generate_n_digit_prime 2 (constant_draws 0) = Some (Inr (11, constant_draws 0))"
  by (subst generate_n_digit_prime.simps) (simp add: draw_candidate_two_digits prime_test_miller_rabin_eleven)

lemma draw_candidate_one_digit: "draw_candidate 1 (constant_draws 0) = Inr (11, constant_draws 0)"
  by (simp add: draw_candidate_def get_random_int_between_def random_choice_def py_int_def
      py_str_def str_nat.simps digit_char_def constant_draws_def comp_def)

lemma generate_one_digit: "generate_n_digit_prime 1 (constant_draws 0) = Some (Inr (11, constant_draws 0))"
  by (subst generate_n_digit_prime.simps) (simp add: draw_candidate_one_digit prime_test_miller_rabin_eleven)

text \<open>A run whose first pass draws 21, which the test rejects, and whose second draws 11.\<close>

lemma first_draw_Suc: "first_draw c \<circ> Suc = constant_draws 0"
  by (simp add: first_draw_def constant_draws_def comp_def)

lemma draw_candidate_twenty_one: "draw_candidate 2 (first_draw 10) = Inr (21, constant_draws 0)"
  by (simp add: draw_candidate_def get_random_int_between_def random_choice_def py_int_def
      py_str_def str_nat.simps digit_char_def first_draw_def constant_draws_def comp_def)

lemma prime_test_miller_rabin_twenty_one:
  "prime_test_miller_rabin 21 10 (constant_draws 0) = Some (Inr (False, constant_draws 0))"
proof -
  have d: "get_random_int_between 2 19 (constant_draws 0) = Inr (2, constant_draws 0)"
    unfolding get_random_int_between_def constant_draws_Suc by (simp add: constant_draws_def)
  have p: "powers 2 20 21 = Inr 4" by (simp add: powers_nonneg)
  have r: "mr_rounds (Suc 9) 21 (constant_draws 0) = Some (Inr (False, constant_draws 0))"
    unfolding mr_rounds.simps using d p by simp
  have "nat 10 = Suc 9" by simp
  with r show ?thesis unfolding prime_test_miller_rabin_def by (simp only:)
qed

lemma pass_start_rejected:
  "pass_start 1 2 (first_draw 10) = Some (constant_draws 0)"
proof -
  have "pass_start (Suc 0) 2 (first_draw 10) = Some (constant_draws 0)"
    by (simp add: draw_candidate_twenty_one prime_test_miller_rabin_twenty_one)
  then show ?thesis by simp
qed

lemma generate_after_rejection:
  "generate_n_digit_prime 2 (first_draw 10) = Some (Inr (11, constant_draws 0))"
  using pass_start_rejected draw_candidate_two_digits prime_test_miller_rabin_eleven
  by (rule generate_n_digit_prime_first_pass)

text \<open>The number of characters of \<open>str\<close>, from the decimal bounds.\<close>

lemma length_str_nat:
  "10 ^ k \<le> n \<Longrightarrow> n < 10 ^ Suc k \<Longrightarrow> length (str_nat n) = Suc k"
proof (induction k arbitrary: n)
  case 0
  then show ?case by (simp add: str_nat.simps)
next
  case (Suc k)
  have "(10::nat) \<le> 10 ^ Suc k" by simp
  with Suc.prems(1) have big: "\<not> n < 10" by linarith
  have lo: "10 ^ k \<le> n div 10"
    using Suc.prems(1) by (simp add: less_eq_div_iff_mult_less_eq mult.commute)
  have hi: "n div 10 < 10 ^ Suc k"
    using Suc.prems(2) by (simp add: div_less_iff_less_mult mult.commute)
  from Suc.IH [OF lo hi] big show ?case
    by (subst str_nat.simps) simp
qed

lemma length_py_str:
  assumes "10 ^ k \<le> v" and "v < 10 ^ Suc k"
  shows "length (py_str v) = Suc k"
proof -
  have "(0::int) \<le> 10 ^ k" by simp
  with assms(1) have v0: "0 \<le> v" by linarith
  have "10 ^ k \<le> nat v"
    using assms(1) v0 by (metis nat_mono nat_int of_nat_numeral of_nat_power)
  moreover have "nat v < 10 ^ Suc k"
    using assms(2) v0 by (metis nat_less_iff of_nat_numeral of_nat_power)
  ultimately have "length (str_nat (nat v)) = Suc k" by (rule length_str_nat)
  with v0 show ?thesis by (simp add: py_str_def)
qed

text \<open>
  C8, counterexample: asked for one digit, the generator still joins a first and a last
  digit; with all raw draws 0 it returns 11, which has two digits.
\<close>

theorem generate_one_digit_counterexample:
  "generate_n_digit_prime 1 (constant_draws 0) = Some (Inr (11, constant_draws 0)) \<and>
   \<not> (11 :: int) < 10 ^ 1"
  using generate_one_digit by simp

text \<open>
  C8, amended: for every \<open>digits \<ge> 2\<close> and every random source, whatever the generator
  returns is a value \<open>v\<close>, not an error.  It is the candidate drawn in the last pass of
  the run (every earlier pass drew a candidate that the test rejected), and
  \<open>prime_test_miller_rabin\<close> with 10 iterations, run on the random source as that draw
  left it, returned \<open>True\<close> on it and left the source that the generator returns.  It
  has exactly \<open>digits\<close> decimal digits with a non-zero first one
  (\<open>10 ^ (digits - 1) \<le> v < 10 ^ digits\<close>, and \<open>str\<close> of it has \<open>digits\<close>
  characters), and its last decimal digit is 1, 3, 7 or 9.
\<close>

theorem generate_n_digit_prime_shape:
  assumes "2 \<le> digits" and "generate_n_digit_prime digits r = Some y"
  shows "\<exists>j r0 v r3 r'. y = Inr (v, r') \<and>
           pass_start j digits r = Some r0 \<and> draw_candidate digits r0 = Inr (v, r3) \<and>
           prime_test_miller_rabin v 10 r3 = Some (Inr (True, r')) \<and>
           10 ^ nat (digits - 1) \<le> v \<and> v < 10 ^ nat digits \<and>
           int (length (py_str v)) = digits \<and>
           v mod 10 \<in> {1, 3, 7, 9}"
proof -
  from generate_n_digit_prime_run [OF assms(2)] obtain j r0 v r3 r' where
    run: "pass_start j digits r = Some r0" "draw_candidate digits r0 = Inr (v, r3)"
         "prime_test_miller_rabin v 10 r3 = Some (Inr (True, r'))" "y = Inr (v, r')"
    by blast
  from assms(1) have e: "nat (digits - 2) + 1 = nat (digits - 1)" "nat (digits - 2) + 2 = nat digits"
    by simp_all
  from draw_candidate_shape [of digits r0] run(2)
  have v: "10 ^ nat (digits - 1) \<le> v" "v < 10 ^ nat digits" "v mod 10 \<in> {1, 3, 7, 9}"
    unfolding e by auto
  from assms(1) have "nat digits = Suc (nat (digits - 1))" by simp
  with v(2) have "v < 10 ^ Suc (nat (digits - 1))" by simp
  from length_py_str [OF v(1) this] assms(1)
  have "int (length (py_str v)) = digits" by simp
  with run v show ?thesis by blast
qed

theorem generate_n_digit_prime_shape_witness:
  "(2::int) \<le> 2 \<and>
   generate_n_digit_prime 2 (first_draw 10) = Some (Inr (11, constant_draws 0)) \<and>
   pass_start 1 2 (first_draw 10) = Some (constant_draws 0) \<and>
   draw_candidate 2 (constant_draws 0) = Inr (11, constant_draws 0) \<and>
   prime_test_miller_rabin 11 10 (constant_draws 0) = Some (Inr (True, constant_draws 0)) \<and>
   (10::int) ^ nat (2 - 1) \<le> 11 \<and> (11::int) < 10 ^ nat 2 \<and>
   int (length (py_str 11)) = 2 \<and> (11::int) mod 10 \<in> {1, 3, 7, 9}"
proof -
  have h: "(2::int) \<le> 2" by simp
  from generate_n_digit_prime_shape [OF h generate_after_rejection]
  have "(10::int) ^ nat (2 - 1) \<le> 11 \<and> (11::int) < 10 ^ nat 2 \<and>
        int (length (py_str 11)) = 2 \<and> (11::int) mod 10 \<in> {1, 3, 7, 9}"
    by auto
  with generate_after_rejection pass_start_rejected draw_candidate_two_digits
    prime_test_miller_rabin_eleven
  show ?thesis by simp
qed

section \<open>RSA: decryption inverts encryption\<close>

text \<open>Fermat's little theorem for \<open>is_prime\<close>, from the binomial theorem.\<close>

lemma is_prime_divisor:
  assumes "is_prime p" and "0 < m" and "m dvd p"
  shows "m = 1 \<or> m = p"
proof (rule ccontr)
  assume c: "\<not> (m = 1 \<or> m = p)"
  from assms(1) have p: "1 < p" by (simp add: is_prime_def)
  with assms(3) have "m \<le> p" by (intro zdvd_imp_le) simp_all
  with c assms(2) have "m \<in> {2..<p}" by simp
  with assms(1,3) show False by (auto simp: is_prime_def)
qed

lemma is_prime_coprime_below:
  assumes "is_prime p" and "0 < m" and "m < p"
  shows "coprime p m"
proof -
  from assms(1) have p: "1 < p" by (simp add: is_prime_def)
  let ?g = "gcd p m"
  have g0: "0 < ?g" using assms(2) by simp
  have "?g dvd m" by simp
  with assms(2) have "?g \<le> m" by (intro zdvd_imp_le) simp_all
  with assms(3) have "?g \<noteq> p" by simp
  moreover have "?g dvd p" by simp
  ultimately have "?g = 1" using is_prime_divisor [OF assms(1) g0] by blast
  then show ?thesis by (simp add: coprime_iff_gcd_eq_1)
qed

lemma is_prime_distinct_coprime:
  assumes "is_prime p" and "is_prime q" and "p \<noteq> q"
  shows "coprime p q"
proof -
  from assms have p: "1 < p" and q: "1 < q" by (simp_all add: is_prime_def)
  let ?g = "gcd p q"
  have g0: "0 < ?g" using p by simp
  have gp: "?g = 1 \<or> ?g = p" using is_prime_divisor [OF assms(1) g0] by simp
  have gq: "?g = 1 \<or> ?g = q" using is_prime_divisor [OF assms(2) g0] by simp
  from gp gq assms(3) have "?g = 1" by auto
  then show ?thesis by (simp add: coprime_iff_gcd_eq_1)
qed

lemma is_prime_dvd_binomial:
  assumes "is_prime p" and "0 < k" and "int k < p"
  shows "p dvd int (nat p choose k)"
proof -
  from assms(1) have p: "1 < p" by (simp add: is_prime_def)
  have "k * (nat p choose k) = nat p * ((nat p - 1) choose (k - 1))"
    using assms(2) by (rule times_binomial_minus1_eq)
  then have "int k * int (nat p choose k) = p * int ((nat p - 1) choose (k - 1))"
    using p by (metis int_nat_eq of_nat_mult less_imp_le order_trans zero_le_one)
  then have "p dvd int k * int (nat p choose k)" by simp
  moreover have "coprime p (int k)"
    using assms by (intro is_prime_coprime_below) simp_all
  ultimately show ?thesis by (simp add: coprime_dvd_mult_right_iff)
qed

lemma is_prime_freshman:
  fixes a :: int
  assumes "is_prime p"
  shows "p dvd (a + 1) ^ nat p - a ^ nat p - 1"
proof -
  from assms have p: "1 < p" by (simp add: is_prime_def)
  then obtain Q where Q: "nat p = Suc Q" by (cases "nat p") auto
  let ?f = "\<lambda>k. int (nat p choose k) * a ^ k"
  have "(a + 1) ^ nat p = (\<Sum>k\<le>nat p. ?f k)"
    using binomial_ring [of a 1 "nat p"] by simp
  also have "\<dots> = (\<Sum>k\<le>Q. ?f k) + ?f (Suc Q)"
    unfolding Q by (rule sum.atMost_Suc)
  also have "(\<Sum>k\<le>Q. ?f k) = ?f 0 + (\<Sum>i<Q. ?f (Suc i))"
    by (rule sum.atMost_shift)
  finally have "(a + 1) ^ nat p - a ^ nat p - 1 = (\<Sum>i<Q. ?f (Suc i))"
    by (simp add: Q)
  moreover have "p dvd (\<Sum>i<Q. ?f (Suc i))"
  proof (rule dvd_sum)
    fix i assume "i \<in> {..<Q}"
    then have "int (Suc i) < p" using Q p by simp
    then have "p dvd int (nat p choose Suc i)"
      using assms by (intro is_prime_dvd_binomial) simp_all
    then show "p dvd ?f (Suc i)" by (rule dvd_mult2)
  qed
  ultimately show ?thesis by simp
qed

lemma is_prime_fermat:
  assumes "is_prime p"
  shows "p dvd int a ^ nat p - int a"
proof (induction a)
  case 0
  from assms have "0 < nat p" by (simp add: is_prime_def)
  then have z: "(0::int) ^ nat p = 0" by simp
  show ?case unfolding of_nat_0 z by simp
next
  case (Suc a)
  have s: "int (Suc a) = int a + 1" by simp
  have eq: "(int a + 1) ^ nat p - (int a + 1)
      = ((int a + 1) ^ nat p - int a ^ nat p - 1) + (int a ^ nat p - int a)"
    by simp
  have "p dvd ((int a + 1) ^ nat p - int a ^ nat p - 1) + (int a ^ nat p - int a)"
    using is_prime_freshman [OF assms, of "int a"] Suc by (rule dvd_add)
  then show ?case by (simp only: s eq)
qed

lemma is_prime_fermat_cycle:
  assumes "is_prime p" and "0 \<le> M"
  shows "p dvd M ^ Suc (k * nat (p - 1)) - M"
proof (induction k)
  case 0
  show ?case by simp
next
  case (Suc k)
  from assms(1) have p: "1 < p" by (simp add: is_prime_def)
  then have np: "nat p = Suc (nat (p - 1))" by simp
  let ?y = "M ^ Suc (k * nat (p - 1))"
  have f: "p dvd M ^ nat p - M"
    using is_prime_fermat [OF assms(1), of "nat M"] assms(2) by simp
  have "M ^ Suc (Suc k * nat (p - 1)) = ?y * M ^ nat (p - 1)"
    by (simp add: power_add)
  moreover have "M * M ^ nat (p - 1) = M ^ nat p" using np by simp
  ultimately have eq: "M ^ Suc (Suc k * nat (p - 1)) - M
      = (?y - M) * M ^ nat (p - 1) + (M ^ nat p - M)"
    by (simp add: algebra_simps)
  have "p dvd (?y - M) * M ^ nat (p - 1) + (M ^ nat p - M)"
    using Suc f by (intro dvd_add dvd_mult2)
  then show ?case by (simp only: eq)
qed

lemma rsa_exponent_cycle:
  assumes "is_prime p" and "is_prime q" and "p \<noteq> q"
    and "0 \<le> x" and "x mod ((p - 1) * (q - 1)) = 1" and "0 \<le> M"
  shows "p * q dvd M ^ nat x - M"
proof -
  from assms(1,2) have p: "1 < p" and q: "1 < q" by (simp_all add: is_prime_def)
  let ?phi = "(p - 1) * (q - 1)"
  let ?k = "x div ?phi"
  have phi: "0 < ?phi" using p q by simp
  have k0: "0 \<le> ?k" using assms(4) phi by (simp add: pos_imp_zdiv_nonneg_iff)
  have "x = ?phi * ?k + x mod ?phi" by simp
  with assms(5) have x: "x = ?phi * ?k + 1" by simp
  have "nat (?phi * ?k) = nat (p - 1) * nat (q - 1) * nat ?k"
    using p q k0 by (simp add: nat_mult_distrib)
  with x k0 phi have nx: "nat x = Suc (nat (p - 1) * nat (q - 1) * nat ?k)"
    by (metis Suc_eq_plus1 mult_nonneg_nonneg nat_add_distrib nat_one_as_int
        of_nat_1 less_imp_le nat_int zero_le_one)
  have "nat x = Suc ((nat (q - 1) * nat ?k) * nat (p - 1))" using nx by (simp add: ac_simps)
  then have dp: "p dvd M ^ nat x - M"
    using is_prime_fermat_cycle [OF assms(1,6)] by simp
  have "nat x = Suc ((nat (p - 1) * nat ?k) * nat (q - 1))" using nx by (simp add: ac_simps)
  then have dq: "q dvd M ^ nat x - M"
    using is_prime_fermat_cycle [OF assms(2,6)] by simp
  from dp dq is_prime_distinct_coprime [OF assms(1-3)] show ?thesis
    by (rule divides_mult)
qed

lemma powers_twice:
  assumes "0 \<le> e" and "0 \<le> d" and "n \<noteq> 0"
  shows "powers M e n = Inr (M ^ nat e mod n) \<and>
         powers (M ^ nat e mod n) d n = Inr (M ^ nat (e * d) mod n)"
proof -
  have "(M ^ nat e mod n) ^ nat d mod n = (M ^ nat e) ^ nat d mod n"
    by (rule power_mod)
  also have "(M ^ nat e) ^ nat d = M ^ nat (e * d)"
    using assms(1,2) by (simp add: power_mult nat_mult_distrib)
  finally show ?thesis using assms by (simp add: powers_nonneg)
qed

text \<open>Euler's theorem for a product of two distinct primes, for the negative private key.\<close>

lemma dvd_power_minus_one:
  fixes m x :: int
  assumes "m dvd x - 1"
  shows "m dvd x ^ j - 1"
proof (induction j)
  case 0
  show ?case by simp
next
  case (Suc j)
  have eq: "x ^ Suc j - 1 = x * (x ^ j - 1) + (x - 1)" by (simp add: algebra_simps)
  have "m dvd x * (x ^ j - 1) + (x - 1)"
    using Suc assms by (intro dvd_add dvd_mult)
  then show ?case by (simp only: eq)
qed

lemma is_prime_fermat_unit:
  assumes "is_prime p" and "0 \<le> M" and "coprime p M"
  shows "p dvd M ^ nat (p - 1) - 1"
proof -
  from assms(1) have "1 < p" by (simp add: is_prime_def)
  then have np: "nat p = Suc (nat (p - 1))" by simp
  have "p dvd M ^ nat p - M"
    using is_prime_fermat [OF assms(1), of "nat M"] assms(2) by simp
  moreover have "M ^ nat p - M = M * (M ^ nat (p - 1) - 1)"
    unfolding np by (simp add: algebra_simps)
  ultimately have "p dvd M * (M ^ nat (p - 1) - 1)" by simp
  with assms(3) show ?thesis by (simp add: coprime_dvd_mult_right_iff)
qed

lemma euler_two_primes:
  assumes "is_prime p" and "is_prime q" and "p \<noteq> q" and "0 \<le> M" and "coprime M (p * q)"
  shows "p * q dvd M ^ (j * nat ((p - 1) * (q - 1))) - 1"
proof -
  from assms(1,2) have p: "1 < p" and q: "1 < q" by (simp_all add: is_prime_def)
  from assms(5) have cp: "coprime p M" and cq: "coprime q M"
    by (simp_all add: coprime_commute)
  have phi: "nat ((p - 1) * (q - 1)) = nat (p - 1) * nat (q - 1)"
    using p q by (simp add: nat_mult_distrib)
  have "M ^ (j * nat ((p - 1) * (q - 1))) = (M ^ nat (p - 1)) ^ (nat (q - 1) * j)"
    unfolding phi by (simp add: power_mult [symmetric] ac_simps)
  then have dp: "p dvd M ^ (j * nat ((p - 1) * (q - 1))) - 1"
    using dvd_power_minus_one [OF is_prime_fermat_unit [OF assms(1,4) cp]] by simp
  have "M ^ (j * nat ((p - 1) * (q - 1))) = (M ^ nat (q - 1)) ^ (nat (p - 1) * j)"
    unfolding phi by (simp add: power_mult [symmetric] ac_simps)
  then have dq: "q dvd M ^ (j * nat ((p - 1) * (q - 1))) - 1"
    using dvd_power_minus_one [OF is_prime_fermat_unit [OF assms(2,4) cq]] by simp
  from dp dq is_prime_distinct_coprime [OF assms(1-3)] show ?thesis
    by (rule divides_mult)
qed

lemma powers_negative_inverse_power:
  assumes "x < 0" and "1 < k" and "gcd a k = 1"
  shows "\<exists>r. powers a x k = Inr r \<and> 0 \<le> r \<and> r < k \<and> k dvd r * a ^ nat (- x) - 1"
proof -
  obtain g s t where r: "extended_euclid_gcd a k = (g, s, t)"
    by (cases "extended_euclid_gcd a k") auto
  from extended_euclid_gcd_bezout [OF r] assms
  have g: "g = 1" and bez: "s * a + t * k = 1"
    by (simp_all add: euclid_gcd_pos_modulus)
  have k0: "k \<noteq> 0" using assms by simp
  let ?m = "nat (- x)"
  let ?r = "(s mod k) ^ ?m mod k"
  have "powers a x k = powers (s mod k) (- x) k"
    using powers_negative_unfold [OF assms(1) r] g k0 by simp
  also have "\<dots> = Inr ?r"
    using powers_nonneg [of "- x" k "s mod k"] assms(1) k0 by simp
  finally have p: "powers a x k = Inr ?r" .
  have "k dvd s * a - 1"
  proof -
    have "s * a - 1 = k * (- t)" using bez by (simp add: algebra_simps)
    then show ?thesis by (rule dvdI)
  qed
  then have "k dvd (s * a) ^ ?m - 1" by (rule dvd_power_minus_one)
  then have "(s * a) ^ ?m mod k = 1 mod k" by (simp add: mod_eq_dvd_iff)
  moreover have "?r * a ^ ?m mod k = (s * a) ^ ?m mod k"
    by (simp add: power_mult_distrib mod_mult_left_eq power_mod)
  ultimately have "?r * a ^ ?m mod k = 1 mod k" by simp
  then have "k dvd ?r * a ^ ?m - 1" by (simp add: mod_eq_dvd_iff)
  with p assms(2) show ?thesis by simp
qed

lemma rsa_round_trip_negative_key:
  assumes "is_prime p" and "is_prime q" and "p \<noteq> q"
    and "0 \<le> e" and "d < 0"
    and "(e * d) mod ((p - 1) * (q - 1)) = 1"
    and "0 \<le> M" and "M < p * q"
  shows "powers (M ^ nat e mod (p * q)) d (p * q)
           = (if gcd M (p * q) = 1 then Inr M else Inl ValueError)"
proof -
  from assms(1,2) have p: "1 < p" and q: "1 < q" by (simp_all add: is_prime_def)
  let ?n = "p * q"
  let ?phi = "(p - 1) * (q - 1)"
  let ?C = "M ^ nat e mod ?n"
  have n1: "1 < ?n" using p q by (simp add: less_1_mult)
  have phi: "0 < ?phi" using p q by simp
  have e0: "e \<noteq> 0"
  proof
    assume "e = 0"
    with assms(6) show False by simp
  qed
  with assms(4) have epos: "0 < nat e" by simp
  have gC: "gcd ?C ?n = gcd (M ^ nat e) ?n"
    using gcd_red_int [of "M ^ nat e" ?n] by (simp add: gcd.commute)
  have "coprime (M ^ nat e) ?n \<longleftrightarrow> coprime M ?n"
    using epos by simp
  then have cop_iff: "gcd ?C ?n = 1 \<longleftrightarrow> gcd M ?n = 1"
    unfolding gC coprime_iff_gcd_eq_1 .
  show ?thesis
  proof (cases "gcd M ?n = 1")
    case False
    with cop_iff have "gcd ?C ?n \<noteq> 1" by simp
    then have "euclid_gcd ?C ?n \<noteq> 1" using n1 by (simp add: euclid_gcd_pos_modulus)
    with powers_negative_error_iff [OF assms(5), of ?C ?n] False show ?thesis by simp
  next
    case True
    with cop_iff have "gcd ?C ?n = 1" by simp
    from powers_negative_inverse_power [OF assms(5) n1 this] obtain r where
      r: "powers ?C d ?n = Inr r" "0 \<le> r" "r < ?n" "?n dvd r * ?C ^ nat (- d) - 1"
      by blast
    let ?m = "nat (- d)"
    let ?X = "?C ^ ?m"
    have "e * d \<le> 0" using assms(4,5) by (intro mult_nonneg_nonpos) simp_all
    then have x: "0 \<le> 1 - e * d" by simp
    have "(1 - e * d) mod ?phi = (1 - (e * d) mod ?phi) mod ?phi"
      by (simp add: mod_diff_right_eq)
    with assms(6) have "(1 - e * d) mod ?phi = 0" by simp
    then obtain j where j: "1 - e * d = ?phi * j" by auto
    with x phi have j0: "0 \<le> j" by (simp add: zero_le_mult_iff)
    have "nat (1 - e * d) = nat j * nat ?phi"
      unfolding j using phi j0 by (simp add: nat_mult_distrib)
    moreover have "coprime M ?n" using True by (simp add: coprime_iff_gcd_eq_1)
    ultimately have eul: "?n dvd M ^ nat (1 - e * d) - 1"
      using euler_two_primes [OF assms(1-3,7), of "nat j"] by simp
    have ex: "nat (1 - e * d) = Suc (nat e * ?m)"
    proof -
      have y: "0 \<le> e * (- d)" using assms(4,5) by (intro mult_nonneg_nonneg) simp_all
      have "1 - e * d = e * (- d) + 1" by simp
      then have "nat (1 - e * d) = nat (e * (- d) + 1)" by simp
      also have "\<dots> = Suc (nat (e * (- d)))" using y by (simp add: nat_add_distrib)
      also have "nat (e * (- d)) = nat e * ?m"
        using assms(4) by (rule nat_mult_distrib)
      finally show ?thesis .
    qed
    have "?X mod ?n = (M ^ nat e) ^ ?m mod ?n" by (rule power_mod)
    then have "?n dvd ?X - M ^ (nat e * ?m)"
      by (simp add: mod_eq_dvd_iff power_mult)
    then have "?n dvd M * (?X - M ^ (nat e * ?m)) + (M ^ nat (1 - e * d) - 1)"
      using eul by (intro dvd_add dvd_mult)
    moreover have "M * (?X - M ^ (nat e * ?m)) + (M ^ nat (1 - e * d) - 1) = M * ?X - 1"
      unfolding ex by (simp add: algebra_simps)
    ultimately have mx: "?n dvd M * ?X - 1" by simp
    have a: "?n dvd r * (M * ?X - 1)" using mx by (rule dvd_mult)
    have b: "?n dvd M * (r * ?X - 1)" using r(4) by (rule dvd_mult)
    from a b have "?n dvd r * (M * ?X - 1) - M * (r * ?X - 1)" by (rule dvd_diff)
    moreover have "r * (M * ?X - 1) - M * (r * ?X - 1) = M - r"
      by (simp add: algebra_simps)
    ultimately have "?n dvd M - r" by simp
    then have "M mod ?n = r mod ?n" by (simp add: mod_eq_dvd_iff)
    with assms(7,8) r(2,3) have "r = M" by simp
    with r(1) True show ?thesis by simp
  qed
qed

text \<open>The negative public key, for a message coprime to the modulus.\<close>

lemma dvd_cancel_inverse:
  fixes n u v w :: int
  assumes "n dvd u * w - 1" and "n dvd v * w - 1"
  shows "n dvd u - v"
proof -
  have a: "n dvd v * (u * w - 1)" using assms(1) by (rule dvd_mult)
  have b: "n dvd u * (v * w - 1)" using assms(2) by (rule dvd_mult)
  from a b have "n dvd v * (u * w - 1) - u * (v * w - 1)" by (rule dvd_diff)
  moreover have "v * (u * w - 1) - u * (v * w - 1) = u - v" by (simp add: algebra_simps)
  ultimately show ?thesis by simp
qed

lemma inverse_imp_gcd_one:
  fixes n c w :: int
  assumes "n dvd c * w - 1"
  shows "gcd c n = 1"
proof -
  let ?g = "gcd c n"
  have "?g dvd c * w" by simp
  moreover have "?g dvd c * w - 1" using assms by (rule dvd_trans [OF gcd_dvd2])
  ultimately have "?g dvd c * w - (c * w - 1)" by (rule dvd_diff)
  then have "?g dvd 1" by simp
  then show ?thesis by simp
qed

lemma rsa_round_trip_negative_public_key:
  assumes "is_prime p" and "is_prime q" and "p \<noteq> q"
    and "e < 0"
    and "(e * d) mod ((p - 1) * (q - 1)) = 1"
    and "0 \<le> M" and "M < p * q" and "gcd M (p * q) = 1"
  shows "\<exists>C. powers M e (p * q) = Inr C \<and> powers C d (p * q) = Inr M"
proof -
  from assms(1,2) have p: "1 < p" and q: "1 < q" by (simp_all add: is_prime_def)
  let ?n = "p * q"
  let ?phi = "(p - 1) * (q - 1)"
  let ?a = "nat (- e)"
  have n1: "1 < ?n" using p q by (simp add: less_1_mult)
  have phi: "0 < ?phi" using p q by simp
  from powers_negative_inverse_power [OF assms(4) n1 assms(8)] obtain C where
    C: "powers M e ?n = Inr C" "0 \<le> C" "C < ?n" "?n dvd C * M ^ ?a - 1"
    by blast
  have inv_pow: "?n dvd C ^ b * M ^ (?a * b) - 1" for b
  proof -
    have "?n dvd (C * M ^ ?a) ^ b - 1" using C(4) by (rule dvd_power_minus_one)
    then show ?thesis by (simp add: power_mult_distrib power_mult)
  qed
  have "powers C d ?n = Inr M"
  proof (cases "0 \<le> d")
    case True
    let ?b = "nat d"
    have "e * d \<le> 0" using assms(4) True by (intro mult_nonpos_nonneg) simp_all
    then have x: "0 \<le> 1 - e * d" by simp
    have "(1 - e * d) mod ?phi = (1 - (e * d) mod ?phi) mod ?phi"
      by (simp add: mod_diff_right_eq)
    with assms(5) have "(1 - e * d) mod ?phi = 0" by simp
    then obtain j where j: "1 - e * d = ?phi * j" by auto
    with x phi have j0: "0 \<le> j" by (simp add: zero_le_mult_iff)
    have "nat (1 - e * d) = nat j * nat ?phi"
      unfolding j using phi j0 by (simp add: nat_mult_distrib)
    moreover have "coprime M ?n" using assms(8) by (simp add: coprime_iff_gcd_eq_1)
    ultimately have eul: "?n dvd M ^ nat (1 - e * d) - 1"
      using euler_two_primes [OF assms(1-3,6), of "nat j"] by simp
    have ex: "nat (1 - e * d) = Suc (?a * ?b)"
    proof -
      have y: "0 \<le> (- e) * d" using assms(4) True by (intro mult_nonneg_nonneg) simp_all
      have "1 - e * d = (- e) * d + 1" by simp
      then have "nat (1 - e * d) = nat ((- e) * d + 1)" by simp
      also have "\<dots> = Suc (nat ((- e) * d))" using y by (simp add: nat_add_distrib)
      also have "nat ((- e) * d) = ?a * ?b"
        using assms(4) by (intro nat_mult_distrib) simp
      finally show ?thesis .
    qed
    have "?n dvd M * M ^ (?a * ?b) - 1" using eul unfolding ex by simp
    with inv_pow [of ?b] have "?n dvd C ^ ?b - M" by (rule dvd_cancel_inverse)
    then have "C ^ ?b mod ?n = M mod ?n" by (simp add: mod_eq_dvd_iff)
    also have "\<dots> = M" using assms(6,7) by simp
    finally have "C ^ ?b mod ?n = M" .
    moreover have "?n \<noteq> 0" using n1 by linarith
    from powers_nonneg [OF True this, of C]
    have "powers C d ?n = Inr (C ^ ?b mod ?n)" .
    ultimately show ?thesis by simp
  next
    case False
    then have dneg: "d < 0" by simp
    let ?b = "nat (- d)"
    have "gcd C ?n = 1" using C(4) by (rule inverse_imp_gcd_one)
    from powers_negative_inverse_power [OF dneg n1 this] obtain R where
      R: "powers C d ?n = Inr R" "0 \<le> R" "R < ?n" "?n dvd R * C ^ ?b - 1"
      by blast
    have x: "0 \<le> e * d" using assms(4) dneg by (intro mult_nonpos_nonpos) simp_all
    have nx: "nat (e * d) = ?a * ?b"
    proof -
      have "e * d = (- e) * (- d)" by simp
      then have "nat (e * d) = nat ((- e) * (- d))" by simp
      also have "\<dots> = ?a * ?b" using assms(4) by (intro nat_mult_distrib) simp
      finally show ?thesis .
    qed
    from rsa_exponent_cycle [OF assms(1-3) x assms(5,6)]
    have cyc: "?n dvd M ^ (?a * ?b) - M" unfolding nx .
    have c1: "?n dvd C ^ ?b * (M ^ (?a * ?b) - M)" using cyc by (rule dvd_mult)
    from inv_pow [of ?b] c1
    have "?n dvd (C ^ ?b * M ^ (?a * ?b) - 1) - C ^ ?b * (M ^ (?a * ?b) - M)"
      by (rule dvd_diff)
    moreover have "(C ^ ?b * M ^ (?a * ?b) - 1) - C ^ ?b * (M ^ (?a * ?b) - M) = M * C ^ ?b - 1"
      by (simp add: algebra_simps)
    ultimately have "?n dvd M * C ^ ?b - 1" by simp
    with R(4) have "?n dvd R - M" by (rule dvd_cancel_inverse)
    then have "R mod ?n = M mod ?n" by (simp add: mod_eq_dvd_iff)
    with assms(6,7) R(2,3) have "R = M" by simp
    with R(1) show ?thesis by simp
  qed
  with C(1) show ?thesis by blast
qed

text \<open>
  C10, counterexample: \<open>p = 3\<close>, \<open>q = 5\<close>, \<open>e = 5\<close> and \<open>d = - 3\<close> (the
  coefficient \<open>extended_euclid_gcd 5 8\<close> returns, and \<open>5 * (- 3) mod 8 = 1\<close>); the
  message \<open>M = 3\<close> is below the modulus but shares a factor with it, and decryption
  raises.
\<close>

theorem rsa_negative_exponent_counterexample:
  "is_prime 3 \<and> is_prime 5 \<and> gcd 5 (euler_totient 3 5) = 1 \<and>
   (5 * (- 3)) mod euler_totient 3 5 = 1 \<and> extended_euclid_gcd 5 8 = (1, - 3, 2) \<and>
   powers 3 5 (3 * 5) = Inr 3 \<and> powers 3 (- 3) (3 * 5) = Inl ValueError"
  by code_simp

text \<open>
  C10, amended: for distinct primes \<open>p\<close> and \<open>q\<close>, \<open>n = p * q\<close> and
  \<open>phi = (p - 1) * (q - 1)\<close>, for every public exponent \<open>e\<close> with
  \<open>gcd e phi = 1\<close>, every \<open>d\<close> with \<open>e * d mod phi = 1\<close> and every \<open>M\<close>
  with \<open>0 \<le> M < n\<close>: when \<open>M\<close> is coprime to \<open>n\<close>, or both exponents are
  non-negative, encryption returns a ciphertext and decryption of it returns \<open>M\<close>.
  When \<open>M\<close> shares a factor with \<open>n\<close>, the step with a negative exponent raises
  \<open>ValueError\<close>: encryption when \<open>e < 0\<close>, decryption when \<open>e \<ge> 0\<close> and
  \<open>d < 0\<close>.
\<close>

theorem rsa_round_trip:
  assumes "is_prime p" and "is_prime q" and "p \<noteq> q"
    and "gcd e (euler_totient p q) = 1" and "(e * d) mod euler_totient p q = 1"
    and "0 \<le> M" and "M < p * q"
  shows "(gcd M (p * q) = 1 \<or> (0 \<le> e \<and> 0 \<le> d) \<longrightarrow>
            (\<exists>C. powers M e (p * q) = Inr C \<and> powers C d (p * q) = Inr M)) \<and>
         (gcd M (p * q) \<noteq> 1 \<and> e < 0 \<longrightarrow> powers M e (p * q) = Inl ValueError) \<and>
         (gcd M (p * q) \<noteq> 1 \<and> 0 \<le> e \<and> d < 0 \<longrightarrow>
            (\<exists>C. powers M e (p * q) = Inr C \<and> powers C d (p * q) = Inl ValueError))"
proof -
  from assms(1,2) have "1 < p" "1 < q" by (simp_all add: is_prime_def)
  then have n1: "1 < p * q" by (simp add: less_1_mult)
  then have n: "p * q \<noteq> 0" by linarith
  from assms(5) have cong: "(e * d) mod ((p - 1) * (q - 1)) = 1"
    by (simp add: euler_totient_def)
  have enc: "powers M e (p * q) = Inr (M ^ nat e mod (p * q))" if "0 \<le> e"
    using that n by (rule powers_nonneg)
  have both: "\<exists>C. powers M e (p * q) = Inr C \<and> powers C d (p * q) = Inr M"
    if e: "0 \<le> e" and d: "0 \<le> d"
  proof -
    have x: "0 \<le> e * d" using e d by simp
    from rsa_exponent_cycle [OF assms(1-3) x cong assms(6)]
    have "M ^ nat (e * d) mod (p * q) = M mod (p * q)"
      by (simp add: mod_eq_dvd_iff)
    also have "\<dots> = M" using assms(6,7) by simp
    finally show ?thesis using powers_twice [OF e d n, of M] by simp
  qed
  have unit: "\<exists>C. powers M e (p * q) = Inr C \<and> powers C d (p * q) = Inr M"
    if g: "gcd M (p * q) = 1"
  proof (cases "0 \<le> e")
    case False
    then have "e < 0" by simp
    from rsa_round_trip_negative_public_key [OF assms(1-3) this cong assms(6,7) g]
    show ?thesis .
  next
    case e: True
    show ?thesis
    proof (cases "0 \<le> d")
      case True
      with e show ?thesis by (rule both)
    next
      case False
      then have "d < 0" by simp
      from rsa_round_trip_negative_key [OF assms(1-3) e this cong assms(6,7)] g enc [OF e]
      show ?thesis by simp
    qed
  qed
  have first: "gcd M (p * q) = 1 \<or> (0 \<le> e \<and> 0 \<le> d) \<longrightarrow>
      (\<exists>C. powers M e (p * q) = Inr C \<and> powers C d (p * q) = Inr M)"
  proof (intro impI, elim disjE conjE)
    assume "gcd M (p * q) = 1"
    then show "\<exists>C. powers M e (p * q) = Inr C \<and> powers C d (p * q) = Inr M" by (rule unit)
  next
    assume "0 \<le> e" and "0 \<le> d"
    then show "\<exists>C. powers M e (p * q) = Inr C \<and> powers C d (p * q) = Inr M" by (rule both)
  qed
  have second: "gcd M (p * q) \<noteq> 1 \<and> e < 0 \<longrightarrow> powers M e (p * q) = Inl ValueError"
  proof (intro impI, elim conjE)
    assume g: "gcd M (p * q) \<noteq> 1" and e: "e < 0"
    from n1 have "euclid_gcd M (p * q) = gcd M (p * q)"
      by (intro euclid_gcd_pos_modulus) linarith
    with g powers_negative_error_iff [OF e, of M "p * q"]
    show "powers M e (p * q) = Inl ValueError" by simp
  qed
  have third: "gcd M (p * q) \<noteq> 1 \<and> 0 \<le> e \<and> d < 0 \<longrightarrow>
      (\<exists>C. powers M e (p * q) = Inr C \<and> powers C d (p * q) = Inl ValueError)"
  proof (intro impI, elim conjE)
    assume g: "gcd M (p * q) \<noteq> 1" and e: "0 \<le> e" and d: "d < 0"
    from rsa_round_trip_negative_key [OF assms(1-3) e d cong assms(6,7)] g enc [OF e]
    show "\<exists>C. powers M e (p * q) = Inr C \<and> powers C d (p * q) = Inl ValueError" by simp
  qed
  from first second third show ?thesis by blast
qed

theorem rsa_round_trip_witness:
  "is_prime 61 \<and> is_prime 53 \<and> (61::int) \<noteq> 53 \<and> gcd 17 (euler_totient 61 53) = 1 \<and>
   (17 * 2753) mod euler_totient 61 53 = 1 \<and> (17 * (- 367)) mod euler_totient 61 53 = 1 \<and>
   (0::int) \<le> 122 \<and> (122::int) < 61 * 53 \<and> (0::int) \<le> 17 \<and> (0::int) \<le> 2753 \<and>
   (\<exists>C. powers 122 17 (61 * 53) = Inr C \<and> powers C 2753 (61 * 53) = Inr 122) \<and>
   (0::int) \<le> 65 \<and> (65::int) < 61 * 53 \<and> gcd (65::int) (61 * 53) = 1 \<and>
   (\<exists>C. powers 65 17 (61 * 53) = Inr C \<and> powers C (- 367) (61 * 53) = Inr 65) \<and>
   is_prime 5 \<and> is_prime 7 \<and> (5::int) \<noteq> 7 \<and> gcd (- 5) (euler_totient 5 7) = 1 \<and>
   ((- 5) * 19) mod euler_totient 5 7 = 1 \<and>
   (0::int) \<le> 2 \<and> (2::int) < 5 * 7 \<and> gcd (2::int) (5 * 7) = 1 \<and>
   (\<exists>C. powers 2 (- 5) (5 * 7) = Inr C \<and> powers C 19 (5 * 7) = Inr 2) \<and>
   (0::int) \<le> 5 \<and> (5::int) < 5 * 7 \<and> gcd (5::int) (5 * 7) \<noteq> 1 \<and> (- 5 :: int) < 0 \<and>
   powers 5 (- 5) (5 * 7) = Inl ValueError \<and>
   gcd (122::int) (61 * 53) \<noteq> 1 \<and> (- 367 :: int) < 0 \<and>
   (\<exists>C. powers 122 17 (61 * 53) = Inr C \<and> powers C (- 367) (61 * 53) = Inl ValueError)"
proof -
  have h1: "is_prime 61" by code_simp
  have h2: "is_prime 53" by code_simp
  have h4: "gcd 17 (euler_totient 61 53) = 1" by code_simp
  have h5: "(17 * 2753) mod euler_totient 61 53 = 1" by (simp add: euler_totient_def)
  have h5': "(17 * (- 367)) mod euler_totient 61 53 = 1" by (simp add: euler_totient_def)
  have g65: "gcd (65::int) (61 * 53) = 1" by code_simp
  have g122: "gcd (122::int) (61 * 53) \<noteq> 1" by code_simp
  have k1: "is_prime 5" by code_simp
  have k2: "is_prime 7" by code_simp
  have k4: "gcd (- 5) (euler_totient 5 7) = 1" by code_simp
  have k5: "((- 5) * 19) mod euler_totient 5 7 = 1" by (simp add: euler_totient_def)
  have g2: "gcd (2::int) (5 * 7) = 1" by code_simp
  have g5: "gcd (5::int) (5 * 7) \<noteq> 1" by code_simp
  have a: "\<exists>C. powers 122 17 (61 * 53) = Inr C \<and> powers C 2753 (61 * 53) = Inr 122"
    using rsa_round_trip [OF h1 h2 _ h4 h5, of 122] by simp
  have b: "\<exists>C. powers 65 17 (61 * 53) = Inr C \<and> powers C (- 367) (61 * 53) = Inr 65"
    using rsa_round_trip [OF h1 h2 _ h4 h5', of 65] g65 by simp
  have c: "\<exists>C. powers 2 (- 5) (5 * 7) = Inr C \<and> powers C 19 (5 * 7) = Inr 2"
    using rsa_round_trip [OF k1 k2 _ k4 k5, of 2] g2 by simp
  have d: "powers 5 (- 5) (5 * 7) = Inl ValueError"
    using rsa_round_trip [OF k1 k2 _ k4 k5, of 5] g5 by simp
  have e: "\<exists>C. powers 122 17 (61 * 53) = Inr C \<and> powers C (- 367) (61 * 53) = Inl ValueError"
    using rsa_round_trip [OF h1 h2 _ h4 h5', of 122] g122 by simp
  from h1 h2 h4 h5 h5' g65 g122 k1 k2 k4 k5 g2 g5 a b c d e show ?thesis by simp
qed

section \<open>The worked example\<close>

text \<open>
  C1, counterexample: with \<open>p = 61\<close>, \<open>q = 53\<close> and public key 17 the message
  \<open>HELLO\<close> comes back as \<open>AHA\<close>.
\<close>

theorem rsa_hello_counterexample:
  "rsa 61 53 [17] ''HELLO'' =
     Some (Inr \<lparr>out_p = 61, out_q = 53, out_n = 3233, out_M = ''HELLO'', out_C = 1934,
                out_P = ''AHA''\<rparr>) \<and>
   ''AHA'' \<noteq> ''HELLO''"
  by code_simp

text \<open>
  C1, amended: with \<open>p = 61\<close>, \<open>q = 53\<close> (\<open>n = 3233\<close>, \<open>phi = 3120\<close>) and
  \<open>e = 17\<close> (coprime to \<open>phi\<close>), \<open>HELLO\<close> encodes at radix 27 to
  \<open>M = 4359030\<close>, which is not below \<open>n\<close>.  Encryption gives 1934; decryption with
  the derived private exponent \<open>- 367\<close> (or with its residue 2753 modulo \<open>phi\<close>)
  gives \<open>M mod n = 946\<close>, whose base-27 digits 1, 8, 1 decode to \<open>AHA\<close>.  With
  the same keys the message \<open>HI\<close> (\<open>M = 225\<close>) is reproduced exactly, and the message
  \<open>BG\<close> (\<open>M = 61\<close>, a factor of \<open>n\<close>) makes decryption raise \<open>ValueError\<close>.
\<close>

theorem rsa_example_amended:
  "61 * 53 = (3233::int) \<and> euler_totient 61 53 = 3120 \<and> euclid_gcd 17 3120 = 1 \<and>
   convert_to_bearcatii ''HELLO'' = Inr [8, 5, 12, 12, 15] \<and>
   horner_eval [8, 5, 12, 12, 15] 27 = 4359030 \<and> \<not> (4359030::int) < 3233 \<and>
   powers 4359030 17 3233 = Inr 1934 \<and>
   extended_euclid_gcd 17 3120 = (1, - 367, 2) \<and>
   powers 1934 (- 367) 3233 = Inr 946 \<and> (- 367) mod 3120 = (2753::int) \<and>
   powers 1934 2753 3233 = Inr 946 \<and> 4359030 mod 3233 = (946::int) \<and>
   convert_to_base_n 946 27 = Some (Inr [1, 8, 1]) \<and>
   convert_bearcatii_to_string [1, 8, 1] = Inr ''AHA'' \<and>
   convert_to_bearcatii ''HI'' = Inr [8, 9] \<and> horner_eval [8, 9] 27 = 225 \<and>
   rsa 61 53 [17] ''HI'' =
     Some (Inr \<lparr>out_p = 61, out_q = 53, out_n = 3233, out_M = ''HI'', out_C = 2008,
                out_P = ''HI''\<rparr>) \<and>
   convert_to_bearcatii ''BG'' = Inr [2, 7] \<and> horner_eval [2, 7] 27 = 61 \<and>
   rsa 61 53 [17] ''BG'' = Some (Inl ValueError)"
  by code_simp

end
